theory Spec2Isabelle
  imports Main "HOL-Library.Word"
begin

unbundle bit_operations_syntax

section \<open>Talking clock sketch: the model\<close>

text \<open>
  A shallow embedding of \<^verbatim>\<open>TalkingClock.ino\<close>. The sketch runs on an ATmega328P:
  \<^verbatim>\<open>uint8_t\<close> and \<^verbatim>\<open>int8_t\<close> are \<open>8 word\<close> (read with \<open>uint\<close>/\<open>unat\<close> or \<open>sint\<close>),
  \<^verbatim>\<open>unsigned long\<close> is \<open>32 word\<close>. Static and global variables are fields of explicit
  state records, hardware effects are fields or traces of the state, and every undefined
  memory access of the C code (a table read out of range, a NULL name, a write in front
  of the filename buffer) is a value of the type \<open>error\<close>.
\<close>

subsection \<open>Tables containing filenames (sans .WAV)\<close>

text \<open>
  A table entry is a pointer to a string in program memory; \<open>None\<close> is the \<^verbatim>\<open>NULL\<close> of
  \<^verbatim>\<open>mTenX\<close>.
\<close>

type_synonym clip = "string option"

definition boot :: string where
  "boot = ''boot''"

definition annc :: string where
  "annc = ''annc''"

definition hours :: "clip list" where
  "hours = [Some ''h12'', Some ''h01'', Some ''h02'', Some ''h03'', Some ''h04'', Some ''h05'',
            Some ''h06'', Some ''h07'', Some ''h08'', Some ''h09'', Some ''h10'', Some ''h11'']"

definition mTens :: "clip list" where
  "mTens = [Some ''m00'', Some ''m10'', Some ''m20'', Some ''m30'', Some ''m40'', Some ''m50'']"

definition mTeens :: "clip list" where
  "mTeens = [Some ''m11'', Some ''m12'', Some ''m13'', Some ''m14'', Some ''m15'', Some ''m16'',
             Some ''m17'', Some ''m18'', Some ''m19'']"

definition mTenX :: "clip list" where
  "mTenX = [Some ''m0x'', None, Some ''m2x'', Some ''m3x'', Some ''m4x'', Some ''m5x'']"

definition mins :: "clip list" where
  "mins = [Some ''m1'', Some ''m2'', Some ''m3'', Some ''m4'', Some ''m5'', Some ''m6'',
           Some ''m7'', Some ''m8'', Some ''m9'']"

definition ampm :: "clip list" where
  "ampm = [Some ''am'', Some ''pm'']"

datatype error = OutOfBounds | NullPointer | BufferUnderflow

text \<open>
  \<^verbatim>\<open>pgm_read_word(&table[i])\<close>: the C code does not check the index, a read outside the
  table is undefined there and an error here.
\<close>

definition pgm_read_word :: "clip list \<Rightarrow> int \<Rightarrow> error + clip" where
  "pgm_read_word table i =
     (if 0 \<le> i \<and> i < int (length table) then Inr (table ! nat i) else Inl OutOfBounds)"

subsection \<open>Time to phrase (the body of \<^verbatim>\<open>loop\<close>, lines 131 to 153)\<close>

text \<open>
  The arguments of the successive \<^verbatim>\<open>playfile\<close> calls for the minute, from the high and the
  low digit. The index \<^verbatim>\<open>lo-1\<close> is computed in \<^verbatim>\<open>int\<close>.
\<close>

definition minute_phrase :: "8 word \<Rightarrow> 8 word \<Rightarrow> (error + clip) list" where
  "minute_phrase hi lo =
     (if lo = 0 then [pgm_read_word mTens (uint hi)]
      else if hi = 1 then [pgm_read_word mTeens (uint lo - 1)]
      else [pgm_read_word mTenX (uint hi), pgm_read_word mins (uint lo - 1)])"

text \<open>
  The arguments of all \<^verbatim>\<open>playfile\<close> calls of one activation, in the order of the calls,
  for the hour and minute read from the clock.
\<close>

definition phrase :: "8 word \<Rightarrow> 8 word \<Rightarrow> (error + clip) list" where
  "phrase h0 m =
     (let hi = m div 10;
          lo = m mod 10;
          pm0 = (0 :: 8 word);
          (h, pm) = (if h0 \<ge> 12 then (h0 - 12, 1) else (h0, pm0))
      in [Inr (Some annc), pgm_read_word hours (uint h)]
         @ minute_phrase hi lo
         @ [pgm_read_word ampm (uint pm)])"

subsection \<open>The mouth: amplitude range of the samples (the loop of \<^verbatim>\<open>playfile\<close>)\<close>

text \<open>
  The local variables \<^verbatim>\<open>int8_t lo, hi, counter\<close> of \<^verbatim>\<open>playfile\<close>, and the values passed to
  \<^verbatim>\<open>analogWrite(LEDMOUTH, b)\<close> so far, oldest first.
\<close>

record amp =
  lo :: "8 word"
  hi :: "8 word"
  counter :: "8 word"
  writes :: "int list"

text \<open>
  One iteration of the \<^verbatim>\<open>for\<close> loop with \<open>s = playpos[1]\<close>. \<^verbatim>\<open>++counter\<close> wraps from 127 to
  -128, so it is zero once in 256 iterations. \<^verbatim>\<open>(hi - lo) * 4\<close> is computed in the 16-bit
  \<^verbatim>\<open>int\<close> of the AVR, where it cannot overflow (its magnitude is at most 1020).
\<close>

definition sample_iter :: "amp \<Rightarrow> 8 word \<Rightarrow> amp" where
  "sample_iter a s =
     (let c = counter a + 1 in
      if c = 0 then
        (let b = (sint (hi a) - sint (lo a)) * 4;
             b = (if b > 255 then 255 else b)
         in a\<lparr>lo := s, hi := s, counter := c, writes := writes a @ [b]\<rparr>)
      else if s <s lo a then a\<lparr>lo := s, counter := c\<rparr>
      else if hi a <s s then a\<lparr>hi := s, counter := c\<rparr>
      else a\<lparr>counter := c\<rparr>)"

definition amp_init :: amp where
  "amp_init = \<lparr>lo = 0, hi = 0, counter = - 1, writes = []\<rparr>"

text \<open>
  The whole loop \<^verbatim>\<open>for(wave.play(); wave.isplaying; )\<close>. The audio is played by the timer
  interrupt of the WaveHC library; the loop only polls it. Its input is the list of the
  values of \<^verbatim>\<open>playpos[1]\<close> that the successive iterations read while \<^verbatim>\<open>wave.isplaying\<close> was
  set, one iteration per element.
\<close>

definition sample_loop :: "8 word list \<Rightarrow> amp" where
  "sample_loop ss = foldl sample_iter amp_init ss"

subsection \<open>Playing one file\<close>

text \<open>
  What the SD card holds under a name: nothing that \<^verbatim>\<open>file.open\<close> finds, a file that
  \<^verbatim>\<open>wave.create\<close> rejects, or a WAV file, given by the samples the polling loop reads.
\<close>

datatype sdfile = NotFound | NotWav | Wav "8 word list"

text \<open>A card given by the list of its files; every other name is not found.\<close>

definition sdcard_of :: "(string \<times> sdfile) list \<Rightarrow> string \<Rightarrow> sdfile" where
  "sdcard_of files name = (case map_of files name of None \<Rightarrow> NotFound | Some f \<Rightarrow> f)"

text \<open>
  The mouth LED pin: an input (high impedance, the state after reset and after
  \<^verbatim>\<open>pinMode(LEDMOUTH, INPUT)\<close>) or an output driven by \<^verbatim>\<open>analogWrite\<close> with a duty value.
\<close>

datatype pin = Input | AnalogOut int

record world =
  filename :: string
  debounceTime :: "32 word"
  mouth :: pin
  serial :: string
  opened :: "string list"
  played :: "string list"

text \<open>
  \<open>filename\<close> is the static buffer of \<^verbatim>\<open>playfile\<close> with its terminating zero, \<open>serial\<close> the
  characters printed so far, \<open>opened\<close> the names passed to \<^verbatim>\<open>file.open\<close> and \<open>played\<close> the
  names of the files started with \<^verbatim>\<open>wave.play\<close>, oldest first.
\<close>

definition NUL :: char where
  "NUL = CHR 0x00"

definition filename_init :: string where
  "filename_init = ''XXXXXXXX.WAV'' @ [NUL]"

definition strlen_P :: "string \<Rightarrow> nat" where
  "strlen_P name = length (takeWhile (\<lambda>c. c \<noteq> NUL) name)"

text \<open>\<^verbatim>\<open>memcpy_P(&buf[off], src, n)\<close>, for a destination inside the buffer.\<close>

definition memcpy_P :: "string \<Rightarrow> nat \<Rightarrow> string \<Rightarrow> nat \<Rightarrow> string" where
  "memcpy_P buf off src n = take off buf @ take n src @ drop (off + n) buf"

text \<open>The C string that starts at \<^verbatim>\<open>&buf[off]\<close>.\<close>

definition cstring :: "string \<Rightarrow> nat \<Rightarrow> string" where
  "cstring buf off = takeWhile (\<lambda>c. c \<noteq> NUL) (drop off buf)"

definition println :: "string \<Rightarrow> string" where
  "println s = s @ [CHR 0x0D, CHR 0x0A]"

text \<open>
  The part of the buffer that \<^verbatim>\<open>playfile\<close> never writes: the buffer has its 13 bytes and
  the extension with the terminating zero starts at index 8.
\<close>

definition filename_ok :: "string \<Rightarrow> bool" where
  "filename_ok buf = (length buf = 13 \<and> drop 8 buf = ''.WAV'' @ [NUL])"

text \<open>All the names the sketch passes to \<^verbatim>\<open>playfile\<close>: the two it names and the table entries.\<close>

definition clip_ids :: "string list" where
  "clip_ids = boot # annc # List.map_filter (\<lambda>c. c) (hours @ mTens @ mTeens @ mTenX @ mins @ ampm)"

text \<open>
  \<^verbatim>\<open>playfile(name)\<close>. A name longer than 8 characters would make \<^verbatim>\<open>&filename[8 - len]\<close>
  point in front of the buffer.
\<close>

definition playfile :: "(string \<Rightarrow> sdfile) \<Rightarrow> clip \<Rightarrow> world \<Rightarrow> error + world" where
  "playfile sd name w =
     (case name of
        None \<Rightarrow> Inl NullPointer
      | Some n \<Rightarrow>
          (let len = strlen_P n in
           if 8 < len then Inl BufferUnderflow
           else
             (let off = 8 - len;
                  buf = memcpy_P (filename w) off n len;
                  fullName = cstring buf off;
                  w1 = w\<lparr>filename := buf, opened := opened w @ [fullName]\<rparr>
              in case sd fullName of
                   Wav ss \<Rightarrow>
                     (let a = sample_loop ss
                      in Inr (w1\<lparr>played := played w1 @ [fullName],
                                 mouth := (if writes a = [] then mouth w1
                                           else AnalogOut (last (writes a)))\<rparr>))
                 | NotWav \<Rightarrow>
                     Inr (w1\<lparr>serial := serial w1 @ fullName @ println '': Not a valid WAV''\<rparr>)
                 | NotFound \<Rightarrow>
                     Inr (w1\<lparr>serial := serial w1 @ ''Couldn't open file: '' @ fullName\<rparr>))))"

subsection \<open>Main loop\<close>

text \<open>
  The \<^verbatim>\<open>playfile\<close> statements of \<^verbatim>\<open>loop\<close>, one after the other: each table read happens
  just before its call.
\<close>

fun play_each :: "(string \<Rightarrow> sdfile) \<Rightarrow> (error + clip) list \<Rightarrow> world \<Rightarrow> error + world" where
  "play_each sd [] w = Inr w"
| "play_each sd (Inl e # cs) w = Inl e"
| "play_each sd (Inr name # cs) w =
     (case playfile sd name w of Inl e \<Rightarrow> Inl e | Inr w' \<Rightarrow> play_each sd cs w')"

text \<open>
  What one call of \<^verbatim>\<open>loop\<close> reads from outside: the trigger pin, \<^verbatim>\<open>millis()\<close>, the clock
  and the card.
\<close>

record inputs =
  trigger_low :: bool
  millis :: "32 word"
  hour :: "8 word"
  minute :: "8 word"
  sdcard :: "string \<Rightarrow> sdfile"

definition loop :: "inputs \<Rightarrow> world \<Rightarrow> error + world" where
  "loop i w =
     (if trigger_low i then
        (if 0 \<le>s millis i - debounceTime w then
           (case play_each (sdcard i) (phrase (hour i) (minute i)) w of
              Inl e \<Rightarrow> Inl e
            | Inr w' \<Rightarrow> Inr (w'\<lparr>mouth := Input\<rparr>))
         else Inr w)
      else Inr (w\<lparr>debounceTime := millis i + 15\<rparr>))"

text \<open>The Arduino core calls \<^verbatim>\<open>loop\<close> again and again; here once per element.\<close>

fun loops :: "inputs list \<Rightarrow> world \<Rightarrow> error + world" where
  "loops [] w = Inr w"
| "loops (i # rest) w = (case loop i w of Inl e \<Rightarrow> Inl e | Inr w' \<Rightarrow> loops rest w')"

text \<open>
  The state after reset, when \<^verbatim>\<open>setup\<close> starts: the static initialisers, the mouth LED pin
  an input, nothing printed or played yet.
\<close>

definition world_init :: world where
  "world_init = \<lparr>filename = filename_init, debounceTime = 0, mouth = Input,
                 serial = [], opened = [], played = []\<rparr>"

text \<open>
  The last two statements of \<^verbatim>\<open>setup\<close>, \<^verbatim>\<open>playfile(boot)\<close> and \<^verbatim>\<open>pinMode(LEDMOUTH, INPUT)\<close>; the
  initialisation of the peripherals before them, which halts the sketch when the card
  cannot be read, is not modelled.
\<close>

definition setup_sketch :: "(string \<Rightarrow> sdfile) \<Rightarrow> error + world" where
  "setup_sketch sd =
     (case playfile sd (Some boot) world_init of
        Inl e \<Rightarrow> Inl e
      | Inr w \<Rightarrow> Inr (w\<lparr>mouth := Input\<rparr>))"

text \<open>The sketch from reset: \<^verbatim>\<open>setup\<close>, then the calls of \<^verbatim>\<open>loop\<close>.\<close>

definition sketch :: "(string \<Rightarrow> sdfile) \<Rightarrow> inputs list \<Rightarrow> error + world" where
  "sketch sd polls = (case setup_sketch sd of Inl e \<Rightarrow> Inl e | Inr w \<Rightarrow> loops polls w)"

subsection \<open>Interrupt for eye-blink timing\<close>

text \<open>
  The static variables \<^verbatim>\<open>counter\<close> and \<^verbatim>\<open>blinking\<close> of the interrupt routine and the level
  of pin 9 (\<open>True\<close> is \<^verbatim>\<open>HIGH\<close>, eyes lit).
\<close>

record eyes =
  counter_isr :: "8 word"
  blinking :: "8 word"
  led_eyes :: bool

definition eyes_init :: eyes where
  "eyes_init = \<lparr>counter_isr = 1, blinking = 1, led_eyes = True\<rparr>"

text \<open>
  \<^verbatim>\<open>random(howbig)\<close> of the Arduino core is \<^verbatim>\<open>random() % howbig\<close> (0 for \<^verbatim>\<open>howbig == 0\<close>), where
  \<^verbatim>\<open>random()\<close> of the C library returns a value from 0 to \<^verbatim>\<open>RANDOM_MAX\<close>. The value drawn
  by the C library is the parameter \<open>r\<close>.
\<close>

definition random_howbig :: "nat \<Rightarrow> nat \<Rightarrow> nat" where
  "random_howbig r howbig = (if howbig = 0 then 0 else r mod howbig)"

definition TIMER2_OVF_vect :: "nat \<Rightarrow> eyes \<Rightarrow> eyes" where
  "TIMER2_OVF_vect r e =
     (let c = counter_isr e - 1 in
      if c = 0 then
        (let b = blinking e + 1 in
         if b AND 1 \<noteq> 0
         then e\<lparr>counter_isr := of_nat (5 + random_howbig r 11), blinking := b, led_eyes := False\<rparr>
         else e\<lparr>counter_isr := of_nat (8 + random_howbig r 120), blinking := b, led_eyes := True\<rparr>)
      else e\<lparr>counter_isr := c\<rparr>)"

section \<open>Time to phrase\<close>

subsection \<open>The digits of the minute, the hour and the table reads\<close>

lemma digit_bounds:
  fixes m :: "8 word"
  assumes "m < 60"
  shows "uint (m div 10) < 6" and "uint (m mod 10) < 10"
  using assms by (simp_all add: word_less_def uint_div uint_mod)

lemma hour_12:
  fixes h :: "8 word"
  assumes "h < 24"
  shows "uint (if 12 \<le> h then h - 12 else h) < 12"
  using assms
  by (auto simp add: word_less_def word_le_def uint_sub_if')

lemma phrase_unfold:
  "phrase h m =
     [Inr (Some annc), pgm_read_word hours (uint (if 12 \<le> h then h - 12 else h))]
     @ minute_phrase (m div 10) (m mod 10)
     @ [pgm_read_word ampm (if 12 \<le> h then 1 else 0)]"
  by (simp add: phrase_def Let_def)

lemma read_in_range:
  "0 \<le> i \<Longrightarrow> i < int (length t) \<Longrightarrow> pgm_read_word t i = Inr (t ! nat i)"
  by (simp add: pgm_read_word_def)

lemma read_Some:
  assumes "None \<notin> set t" and "0 \<le> i" and "i < int (length t)"
  shows "\<exists>n. pgm_read_word t i = Inr (Some n)"
proof -
  have "t ! nat i \<in> set t" using assms(2,3) by simp
  with assms(1) obtain n where "t ! nat i = Some n" by (cases "t ! nat i") auto
  then show ?thesis using assms(2,3) by (simp add: read_in_range)
qed

lemma mTenX_nth: "k < 6 \<Longrightarrow> k \<noteq> 1 \<Longrightarrow> \<exists>n. mTenX ! k = Some n"
proof -
  assume "k < 6" "k \<noteq> 1"
  then consider "k = 0" | "k = 2" | "k = 3" | "k = 4" | "k = 5" by linarith
  then show ?thesis by cases (simp_all add: mTenX_def)
qed

lemma table_facts:
  "None \<notin> set hours" "length hours = 12"
  "None \<notin> set mTens" "length mTens = 6"
  "None \<notin> set mTeens" "length mTeens = 9"
  "length mTenX = 6"
  "None \<notin> set mins" "length mins = 9"
  "None \<notin> set ampm" "length ampm = 2"
  by (simp_all add: hours_def mTens_def mTeens_def mTenX_def mins_def ampm_def)

lemma read_hours:
  fixes h :: "8 word"
  assumes "h < 24"
  shows "\<exists>n. pgm_read_word hours (uint (if 12 \<le> h then h - 12 else h)) = Inr (Some n)"
  using hour_12 [OF assms] by (intro read_Some) (simp_all add: table_facts)

lemma read_ampm:
  "\<exists>n. pgm_read_word ampm (if b then 1 else 0) = Inr (Some n)"
  by (intro read_Some) (simp_all add: table_facts)

lemma read_mTens:
  fixes m :: "8 word"
  assumes "m < 60"
  shows "\<exists>n. pgm_read_word mTens (uint (m div 10)) = Inr (Some n)"
  using digit_bounds(1) [OF assms] by (intro read_Some) (simp_all add: table_facts)

lemma read_mTeens:
  fixes m :: "8 word"
  assumes "m < 60" and "m mod 10 \<noteq> 0"
  shows "\<exists>n. pgm_read_word mTeens (uint (m mod 10) - 1) = Inr (Some n)"
proof -
  have "uint (m mod 10) \<noteq> 0" using assms(2) by (simp add: uint_0_iff)
  then have "0 \<le> uint (m mod 10) - 1" using uint_ge_0 [of "m mod 10"] by linarith
  moreover have "uint (m mod 10) - 1 < 9" using digit_bounds(2) [OF assms(1)] by simp
  ultimately show ?thesis by (intro read_Some) (simp_all add: table_facts)
qed

lemma read_mins:
  fixes m :: "8 word"
  assumes "m < 60" and "m mod 10 \<noteq> 0"
  shows "\<exists>n. pgm_read_word mins (uint (m mod 10) - 1) = Inr (Some n)"
proof -
  have "uint (m mod 10) \<noteq> 0" using assms(2) by (simp add: uint_0_iff)
  then have "0 \<le> uint (m mod 10) - 1" using uint_ge_0 [of "m mod 10"] by linarith
  moreover have "uint (m mod 10) - 1 < 9" using digit_bounds(2) [OF assms(1)] by simp
  ultimately show ?thesis by (intro read_Some) (simp_all add: table_facts)
qed

lemma read_mTenX:
  fixes m :: "8 word"
  assumes "m < 60" and "m div 10 \<noteq> 1"
  shows "\<exists>n. pgm_read_word mTenX (uint (m div 10)) = Inr (Some n)"
proof -
  have b: "uint (m div 10) < 6" by (rule digit_bounds(1) [OF assms(1)])
  have "unat (m div 10) \<noteq> unat (1 :: 8 word)"
    using assms(2) by (simp only: word_unat_eq_iff [symmetric] not_False_eq_True)
  then have "unat (m div 10) \<noteq> 1" by simp
  moreover have "unat (m div 10) < 6"
    using assms(1) by (simp add: word_less_nat_alt unat_div)
  ultimately obtain n where "mTenX ! unat (m div 10) = Some n"
    using mTenX_nth by blast
  then show ?thesis using b by (simp add: read_in_range table_facts)
qed

lemma minute_phrase_names:
  fixes m :: "8 word"
  assumes "m < 60"
  shows "\<exists>ns. minute_phrase (m div 10) (m mod 10) = map (\<lambda>n. Inr (Some n)) ns
            \<and> length ns = (if m mod 10 \<noteq> 0 \<and> m div 10 \<noteq> 1 then 2 else 1)"
proof (cases "m mod 10 = 0")
  case True
  obtain n where "pgm_read_word mTens (uint (m div 10)) = Inr (Some n)"
    using read_mTens [OF assms] by blast
  then have "minute_phrase (m div 10) (m mod 10) = map (\<lambda>n. Inr (Some n)) [n]"
    using True by (simp add: minute_phrase_def)
  then show ?thesis using True by (intro exI [of _ "[n]"]) simp
next
  case lo: False
  show ?thesis
  proof (cases "m div 10 = 1")
    case True
    obtain n where "pgm_read_word mTeens (uint (m mod 10) - 1) = Inr (Some n)"
      using read_mTeens [OF assms lo] by blast
    then have "minute_phrase (m div 10) (m mod 10) = map (\<lambda>n. Inr (Some n)) [n]"
      using True lo by (simp add: minute_phrase_def)
    then show ?thesis using True by (intro exI [of _ "[n]"]) simp
  next
    case False
    obtain n where n: "pgm_read_word mTenX (uint (m div 10)) = Inr (Some n)"
      using read_mTenX [OF assms False] by blast
    obtain k where k: "pgm_read_word mins (uint (m mod 10) - 1) = Inr (Some k)"
      using read_mins [OF assms lo] by blast
    have "minute_phrase (m div 10) (m mod 10) = map (\<lambda>n. Inr (Some n)) [n, k]"
      using False lo n k by (simp add: minute_phrase_def)
    then show ?thesis using False lo by (intro exI [of _ "[n, k]"]) simp
  qed
qed

lemma phrase_names:
  fixes h m :: "8 word"
  assumes "h < 24" and "m < 60"
  shows "\<exists>ns. phrase h m = map (\<lambda>n. Inr (Some n)) ns
            \<and> length ns = (if m mod 10 \<noteq> 0 \<and> m div 10 \<noteq> 1 then 5 else 4)"
proof -
  obtain a where a: "pgm_read_word hours (uint (if 12 \<le> h then h - 12 else h)) = Inr (Some a)"
    using read_hours [OF assms(1)] by blast
  obtain p where p: "pgm_read_word ampm (if 12 \<le> h then 1 else 0) = Inr (Some p)"
    using read_ampm by blast
  obtain ns where ns: "minute_phrase (m div 10) (m mod 10) = map (\<lambda>n. Inr (Some n)) ns"
    and len: "length ns = (if m mod 10 \<noteq> 0 \<and> m div 10 \<noteq> 1 then 2 else 1)"
    using minute_phrase_names [OF assms(2)] by blast
  have "phrase h m = map (\<lambda>n. Inr (Some n)) ([annc, a] @ ns @ [p])"
    by (simp only: phrase_unfold a p ns) simp
  moreover have "length ([annc, a] @ ns @ [p]) = (if m mod 10 \<noteq> 0 \<and> m div 10 \<noteq> 1 then 5 else 4)"
    using len by simp
  ultimately show ?thesis by blast
qed

lemma phrase_elems:
  fixes h m :: "8 word"
  assumes "h < 24" and "m < 60"
  shows "\<forall>c \<in> set (phrase h m). \<exists>n. c = Inr (Some n)"
proof -
  obtain ns where "phrase h m = map (\<lambda>n. Inr (Some n)) ns"
    using phrase_names [OF assms] by blast
  then show ?thesis by auto
qed

lemma tables_differ: "mTens \<noteq> mTenX" "mTeens \<noteq> mTenX"
  by (simp_all add: mTens_def mTeens_def mTenX_def)

lemma minute_phrase_guard:
  "(lo' \<noteq> 0 \<and> hi' \<noteq> 1
      \<and> minute_phrase hi' lo' = [pgm_read_word mTenX (uint hi'), pgm_read_word mins (uint lo' - 1)])
   \<or> (\<exists>t i. t \<noteq> mTenX \<and> minute_phrase hi' lo' = [pgm_read_word t i])"
proof (cases "lo' = 0")
  case True
  then have "minute_phrase hi' lo' = [pgm_read_word mTens (uint hi')]"
    by (simp add: minute_phrase_def)
  then show ?thesis using tables_differ(1) by blast
next
  case False
  show ?thesis
  proof (cases "hi' = 1")
    case True
    then have "minute_phrase hi' lo' = [pgm_read_word mTeens (uint lo' - 1)]"
      using False by (simp add: minute_phrase_def)
    then show ?thesis using tables_differ(2) by blast
  next
    case hi: False
    then show ?thesis using False by (simp add: minute_phrase_def)
  qed
qed

lemma minute_unat:
  fixes m :: "8 word"
  shows "(m mod 10 = 0) = (unat m mod 10 = 0)"
    and "(m div 10 = 1) = (unat m div 10 = 1)"
    and "(11 \<le> m) = (11 \<le> unat m)"
    and "(m \<le> 19) = (unat m \<le> 19)"
    and "(m < 60) = (unat m < 60)"
  by (simp_all add: word_unat_eq_iff unat_div unat_mod word_le_nat_alt word_less_nat_alt)

lemma teen_digits:
  fixes k :: nat
  assumes "11 \<le> k" and "k \<le> 19"
  shows "k div 10 = 1" and "k mod 10 = k - 10"
  using assms by (intro div_nat_eqI mod_nat_eqI; simp)+

lemma not_teen_digit:
  fixes k :: nat
  assumes "k mod 10 \<noteq> 0" and "\<not> (11 \<le> k \<and> k \<le> 19)"
  shows "k div 10 \<noteq> 1"
proof
  assume d: "k div 10 = 1"
  have "k = 10 * (k div 10) + k mod 10" by simp
  then have "k = 10 + k mod 10" using d by simp
  moreover have "k mod 10 < 10" by simp
  ultimately show False using assms by linarith
qed

lemma ones_index: "(k :: nat) mod 10 - 1 < 9"
proof -
  have "k mod 10 < 10" by simp
  then show ?thesis by linarith
qed

lemma phrase_23_45:
  "phrase 23 45 = [Inr (Some ''annc''), Inr (Some ''h11''), Inr (Some ''m4x''),
                   Inr (Some ''m5''), Inr (Some ''pm'')]"
  by (simp add: phrase_def minute_phrase_def pgm_read_word_def annc_def hours_def mTenX_def
      mins_def ampm_def)

subsection \<open>Length of the phrase\<close>

text \<open>
  C1 (as amended). For every hour in 0..23 and minute in 0..59 every element of the phrase
  is a clip name, and the phrase (announcement, hour clip, minute clip or clips, period
  clip) has 4 or 5 clips: 5 exactly when the ones digit of the minute is not 0 and the tens
  digit is not 1.
\<close>

theorem phrase_length_4_or_5:
  fixes h m :: "8 word"
  assumes "h < 24" and "m < 60"
  shows "\<exists>ns. phrase h m = map (\<lambda>n. Inr (Some n)) ns
            \<and> (length ns = 4 \<or> length ns = 5)
            \<and> (length ns = 5 \<longleftrightarrow> m mod 10 \<noteq> 0 \<and> m div 10 \<noteq> 1)"
proof -
  obtain ns where "phrase h m = map (\<lambda>n. Inr (Some n)) ns"
    and "length ns = (if m mod 10 \<noteq> 0 \<and> m div 10 \<noteq> 1 then 5 else 4)"
    using phrase_names [OF assms] by blast
  then show ?thesis by (intro exI [of _ ns]) (simp split: if_splits)
qed

theorem phrase_length_4_or_5_witness:
  "(13 :: 8 word) < 24 \<and> (5 :: 8 word) < 60 \<and>
   (\<exists>ns. phrase 13 5 = map (\<lambda>n. Inr (Some n)) ns
            \<and> (length ns = 4 \<or> length ns = 5)
            \<and> (length ns = 5 \<longleftrightarrow> (5 :: 8 word) mod 10 \<noteq> 0 \<and> (5 :: 8 word) div 10 \<noteq> 1))"
  using phrase_length_4_or_5 [of 13 5] by simp

text \<open>
  C1 as stated (a length between 2 and 4) fails at 13:05, where five clips are played:
  announcement, \<^verbatim>\<open>h01\<close>, \<^verbatim>\<open>m0x\<close>, \<^verbatim>\<open>m5\<close>, \<^verbatim>\<open>pm\<close>.
\<close>

theorem phrase_length_counterexample:
  "\<not> (2 \<le> length (phrase 13 5) \<and> length (phrase 13 5) \<le> 4)"
  by (simp add: phrase_def minute_phrase_def)

subsection \<open>Totality of the translation\<close>

text \<open>
  C3. For every hour in 0..23 and minute in 0..59 every element of the phrase is the name
  of a clip: no table read is out of bounds and none yields the \<^verbatim>\<open>NULL\<close> of \<^verbatim>\<open>mTenX\<close>. Every
  index the code computes lies inside its table, and either the minute phrase is the
  tens-prefix branch, with a ones digit other than 0 and a tens digit other than 1, or it is
  a single read from a table other than \<^verbatim>\<open>mTenX\<close>.
\<close>

theorem phrase_total:
  fixes h m :: "8 word"
  assumes "h < 24" and "m < 60"
  shows "(\<forall>c \<in> set (phrase h m). \<exists>n. c = Inr (Some n))
       \<and> uint (if 12 \<le> h then h - 12 else h) < int (length hours)
       \<and> uint (m div 10) < int (length mTens)
       \<and> uint (m div 10) < int (length mTenX)
       \<and> (m mod 10 \<noteq> 0 \<longrightarrow> 0 \<le> uint (m mod 10) - 1 \<and> uint (m mod 10) - 1 < int (length mTeens)
                              \<and> uint (m mod 10) - 1 < int (length mins))
       \<and> ((m mod 10 \<noteq> 0 \<and> m div 10 \<noteq> 1
            \<and> minute_phrase (m div 10) (m mod 10)
                = [pgm_read_word mTenX (uint (m div 10)), pgm_read_word mins (uint (m mod 10) - 1)])
          \<or> (\<exists>t i. t \<noteq> mTenX \<and> minute_phrase (m div 10) (m mod 10) = [pgm_read_word t i]))"
proof -
  have lo_pos: "0 \<le> uint (m mod 10) - 1" if "m mod 10 \<noteq> 0"
  proof -
    have "uint (m mod 10) \<noteq> 0" using that by (simp add: uint_0_iff)
    then show ?thesis using uint_ge_0 [of "m mod 10"] by linarith
  qed
  have lo_lt: "uint (m mod 10) - 1 < 9"
    using digit_bounds(2) [OF assms(2)] by simp
  show ?thesis
    using phrase_elems [OF assms] hour_12 [OF assms(1)] digit_bounds(1) [OF assms(2)]
      lo_pos lo_lt minute_phrase_guard [of "m mod 10" "m div 10"]
    by (simp only: table_facts) simp
qed

theorem phrase_total_witness:
  "(23 :: 8 word) < 24 \<and> (45 :: 8 word) < 60
   \<and> Inl OutOfBounds \<notin> set (phrase 23 45) \<and> Inr None \<notin> set (phrase 23 45)
   \<and> (45 :: 8 word) mod 10 \<noteq> 0 \<and> (45 :: 8 word) div 10 \<noteq> 1"
proof -
  have a: "(23 :: 8 word) < 24" and b: "(45 :: 8 word) < 60"
    by simp_all
  have "\<forall>c \<in> set (phrase 23 45). \<exists>n. c = Inr (Some n)"
    using phrase_total [OF a b] by (rule conjunct1)
  then have "Inl OutOfBounds \<notin> set (phrase 23 45)" and "Inr None \<notin> set (phrase 23 45)"
    by blast+
  then show ?thesis by simp
qed

subsection \<open>The three branches of the minute phrase\<close>

text \<open>
  C4. For every minute in 0..59: if the ones digit is 0 the minute phrase is the one clip
  of \<^verbatim>\<open>mTens\<close> at the tens digit; if the minute is 11..19 it is the one clip of \<^verbatim>\<open>mTeens\<close> at
  index minute - 11; otherwise it is two clips, \<^verbatim>\<open>mTenX\<close> at the tens digit and then \<^verbatim>\<open>mins\<close>
  at the ones digit - 1. The phrase is announcement, hour clip, minute phrase, period
  clip, and at 23:45 it is \<^verbatim>\<open>annc\<close>, \<^verbatim>\<open>h11\<close>, \<^verbatim>\<open>m4x\<close>, \<^verbatim>\<open>m5\<close>, \<^verbatim>\<open>pm\<close>.
\<close>

theorem minute_phrase_branches:
  fixes m :: "8 word"
  assumes "m < 60"
  shows "(m mod 10 = 0 \<longrightarrow>
            unat (m div 10) < length mTens
          \<and> minute_phrase (m div 10) (m mod 10) = [Inr (mTens ! unat (m div 10))])
       \<and> (11 \<le> m \<and> m \<le> 19 \<longrightarrow>
            unat m - 11 < length mTeens
          \<and> minute_phrase (m div 10) (m mod 10) = [Inr (mTeens ! (unat m - 11))])
       \<and> (m mod 10 \<noteq> 0 \<and> \<not> (11 \<le> m \<and> m \<le> 19) \<longrightarrow>
            unat (m div 10) < length mTenX \<and> unat (m mod 10) - 1 < length mins
          \<and> minute_phrase (m div 10) (m mod 10)
              = [Inr (mTenX ! unat (m div 10)), Inr (mins ! (unat (m mod 10) - 1))])
       \<and> (\<forall>h. phrase h m = [Inr (Some annc), pgm_read_word hours (uint (if 12 \<le> h then h - 12 else h))]
                           @ minute_phrase (m div 10) (m mod 10)
                           @ [pgm_read_word ampm (if 12 \<le> h then 1 else 0)])
       \<and> phrase 23 45 = [Inr (Some ''annc''), Inr (Some ''h11''), Inr (Some ''m4x''),
                          Inr (Some ''m5''), Inr (Some ''pm'')]"
proof -
  define k where "k = unat m"
  have k: "k < 60" using assms by (simp add: minute_unat k_def)
  have hi: "unat (m div 10) = k div 10" by (simp add: unat_div k_def)
  have lo: "unat (m mod 10) = k mod 10" by (simp add: unat_mod k_def)
  have hi6: "k div 10 < 6" using k by simp
  have uhi: "uint (m div 10) = int (k div 10)" by (simp only: hi [symmetric]) simp
  have ulo: "uint (m mod 10) = int (k mod 10)" by (simp only: lo [symmetric]) simp
  have rd: "pgm_read_word t (int j) = Inr (t ! j)" if "j < length t" for t j
    using that by (simp add: pgm_read_word_def)
  have tens: "minute_phrase (m div 10) (m mod 10) = [Inr (mTens ! (k div 10))]"
    if "m mod 10 = 0"
  proof -
    have "minute_phrase (m div 10) (m mod 10) = [pgm_read_word mTens (int (k div 10))]"
      using that by (simp add: minute_phrase_def uhi)
    then show ?thesis using hi6 by (simp add: rd table_facts)
  qed
  have teens: "k - 11 < 9 \<and> minute_phrase (m div 10) (m mod 10) = [Inr (mTeens ! (k - 11))]"
    if "11 \<le> m" and "m \<le> 19"
  proof -
    have r: "11 \<le> k" "k \<le> 19" using that by (simp_all add: minute_unat k_def)
    then have d: "k div 10 = 1" and l: "k mod 10 = k - 10" by (rule teen_digits)+
    have "m div 10 = 1" "m mod 10 \<noteq> 0"
      using d l r by (simp_all add: minute_unat k_def [symmetric])
    then have "minute_phrase (m div 10) (m mod 10) = [pgm_read_word mTeens (int (k mod 10) - 1)]"
      by (simp add: minute_phrase_def ulo)
    moreover have e: "int (k mod 10) - 1 = int (k - 11)" using r l by linarith
    ultimately have "minute_phrase (m div 10) (m mod 10) = [pgm_read_word mTeens (int (k - 11))]"
      by (simp only:)
    moreover have b: "k - 11 < 9" using r by linarith
    moreover have "pgm_read_word mTeens (int (k - 11)) = Inr (mTeens ! (k - 11))"
      using b by (intro rd) (simp add: table_facts)
    ultimately show ?thesis by (simp only:)
  qed
  have other: "k mod 10 - 1 < 9 \<and> minute_phrase (m div 10) (m mod 10)
              = [Inr (mTenX ! (k div 10)), Inr (mins ! (k mod 10 - 1))]"
    if "m mod 10 \<noteq> 0" and "\<not> (11 \<le> m \<and> m \<le> 19)"
  proof -
    have l: "k mod 10 \<noteq> 0" and r: "\<not> (11 \<le> k \<and> k \<le> 19)"
      using that by (simp_all add: minute_unat k_def)
    then have "k div 10 \<noteq> 1" by (rule not_teen_digit)
    then have d: "m div 10 \<noteq> 1" by (simp add: minute_unat k_def)
    have e: "int (k mod 10) - 1 = int (k mod 10 - 1)" using l by linarith
    have b: "k mod 10 - 1 < 9" by (rule ones_index)
    have "minute_phrase (m div 10) (m mod 10)
           = [pgm_read_word mTenX (int (k div 10)), pgm_read_word mins (int (k mod 10) - 1)]"
      using that(1) d by (simp add: minute_phrase_def ulo uhi)
    then have "minute_phrase (m div 10) (m mod 10)
           = [pgm_read_word mTenX (int (k div 10)), pgm_read_word mins (int (k mod 10 - 1))]"
      by (simp only: e)
    moreover have "pgm_read_word mTenX (int (k div 10)) = Inr (mTenX ! (k div 10))"
      using hi6 by (intro rd) (simp add: table_facts)
    moreover have "pgm_read_word mins (int (k mod 10 - 1)) = Inr (mins ! (k mod 10 - 1))"
      using b by (intro rd) (simp add: table_facts)
    ultimately show ?thesis using b by (simp only:)
  qed
  have unf: "\<forall>h. phrase h m = [Inr (Some annc), pgm_read_word hours (uint (if 12 \<le> h then h - 12 else h))]
                           @ minute_phrase (m div 10) (m mod 10)
                           @ [pgm_read_word ampm (if 12 \<le> h then 1 else 0)]"
    by (simp only: phrase_unfold simp_thms)
  have c1: "m mod 10 = 0 \<longrightarrow>
            unat (m div 10) < length mTens
          \<and> minute_phrase (m div 10) (m mod 10) = [Inr (mTens ! unat (m div 10))]"
    using tens hi6 by (simp only: hi table_facts) simp
  have c2: "11 \<le> m \<and> m \<le> 19 \<longrightarrow>
            unat m - 11 < length mTeens
          \<and> minute_phrase (m div 10) (m mod 10) = [Inr (mTeens ! (unat m - 11))]"
    using teens by (simp only: k_def [symmetric] table_facts) simp
  have c3: "m mod 10 \<noteq> 0 \<and> \<not> (11 \<le> m \<and> m \<le> 19) \<longrightarrow>
            unat (m div 10) < length mTenX \<and> unat (m mod 10) - 1 < length mins
          \<and> minute_phrase (m div 10) (m mod 10)
              = [Inr (mTenX ! unat (m div 10)), Inr (mins ! (unat (m mod 10) - 1))]"
    using other hi6 by (simp only: hi lo table_facts) simp
  show ?thesis
    using c1 c2 c3 unf phrase_23_45 by (intro conjI)
qed

theorem minute_phrase_branches_witness:
  "(45 :: 8 word) < 60
   \<and> minute_phrase 4 5 = [Inr (Some ''m4x''), Inr (Some ''m5'')]
   \<and> minute_phrase 3 0 = [Inr (Some ''m30'')]
   \<and> minute_phrase 1 7 = [Inr (Some ''m17'')]"
proof -
  have a: "(45 :: 8 word) < 60" and b: "(30 :: 8 word) < 60" and c: "(17 :: 8 word) < 60"
    by simp_all
  have "minute_phrase 4 5 = [Inr (Some ''m4x''), Inr (Some ''m5'')]"
    using minute_phrase_branches [OF a, THEN conjunct2, THEN conjunct2, THEN conjunct1]
    by (simp add: mTenX_def mins_def)
  moreover have "minute_phrase 3 0 = [Inr (Some ''m30'')]"
    using minute_phrase_branches [OF b, THEN conjunct1]
    by (simp add: mTens_def)
  moreover have "minute_phrase 1 7 = [Inr (Some ''m17'')]"
    using minute_phrase_branches [OF c, THEN conjunct2, THEN conjunct1]
    by (simp add: mTeens_def)
  ultimately show ?thesis using a by simp
qed

section \<open>The mouth\<close>

subsection \<open>One iteration, the counter and the amplitude range\<close>

lemma counter_iter: "counter (sample_iter a s) = counter a + 1"
  by (simp add: sample_iter_def Let_def)

lemma counter_foldl: "counter (foldl sample_iter a xs) = counter a + of_nat (length xs)"
  by (induction xs arbitrary: a) (simp_all add: counter_iter)

lemma iter_boundary:
  assumes "counter a + 1 = 0"
  shows "sample_iter a s =
           a\<lparr>lo := s, hi := s, counter := 0,
             writes := writes a @ [min 255 ((sint (hi a) - sint (lo a)) * 4)]\<rparr>"
  using assms by (simp add: sample_iter_def Let_def min_def)

lemma iter_inner:
  assumes "counter a + 1 \<noteq> 0" and "sint (lo a) \<le> sint (hi a)"
  shows "writes (sample_iter a s) = writes a"
    and "sint (lo (sample_iter a s)) = min (sint (lo a)) (sint s)"
    and "sint (hi (sample_iter a s)) = max (sint (hi a)) (sint s)"
  using assms by (auto simp add: sample_iter_def Let_def word_sless_alt min_def max_def)

lemma iter_ordered:
  assumes "sint (lo a) \<le> sint (hi a)"
  shows "sint (lo (sample_iter a s)) \<le> sint (hi (sample_iter a s))"
  using assms by (auto simp add: sample_iter_def Let_def word_sless_alt)

lemma iter_writes:
  assumes "sint (lo a) \<le> sint (hi a)" and "\<forall>b \<in> set (writes a). 0 \<le> b \<and> b \<le> 255"
  shows "\<forall>b \<in> set (writes (sample_iter a s)). 0 \<le> b \<and> b \<le> 255"
  using assms by (auto simp add: sample_iter_def Let_def)

lemma foldl_inv:
  assumes "sint (lo a) \<le> sint (hi a)" and "\<forall>b \<in> set (writes a). 0 \<le> b \<and> b \<le> 255"
  shows "sint (lo (foldl sample_iter a xs)) \<le> sint (hi (foldl sample_iter a xs))
       \<and> (\<forall>b \<in> set (writes (foldl sample_iter a xs)). 0 \<le> b \<and> b \<le> 255)"
  using assms
proof (induction xs arbitrary: a)
  case Nil
  then show ?case by simp
next
  case (Cons x xs)
  show ?case
    using Cons.IH [OF iter_ordered [OF Cons.prems(1)] iter_writes [OF Cons.prems]]
    by simp
qed


lemma sample_loop_snoc: "sample_loop (xs @ [s]) = sample_iter (sample_loop xs) s"
  by (simp add: sample_loop_def)

lemma sample_loop_take_Suc:
  assumes "i < length ss"
  shows "sample_loop (take (Suc i) ss) = sample_iter (sample_loop (take i ss)) (ss ! i)"
  using assms by (simp add: take_Suc_conv_app_nth sample_loop_snoc)

lemma sample_loop_inv:
  "sint (lo (sample_loop ss)) \<le> sint (hi (sample_loop ss))
   \<and> (\<forall>b \<in> set (writes (sample_loop ss)). 0 \<le> b \<and> b \<le> 255)"
  unfolding sample_loop_def by (rule foldl_inv) (simp_all add: amp_init_def)

lemma counter_sample_loop: "counter (sample_loop xs) + 1 = of_nat (length xs)"
  by (simp add: sample_loop_def counter_foldl amp_init_def)

lemma boundary_iff: "(of_nat i = (0 :: 8 word)) = (i mod 256 = 0)"
  by (simp add: word_of_nat_eq_0_iff mod_eq_0_iff_dvd)

text \<open>From a window boundary on, for up to 256 iterations.\<close>

lemma window_fold:
  assumes "counter a + 1 = 0" and "length xs < 256"
  shows "sint (lo (foldl sample_iter a (x # xs))) = Min (sint ` set (x # xs))
       \<and> sint (hi (foldl sample_iter a (x # xs))) = Max (sint ` set (x # xs))
       \<and> writes (foldl sample_iter a (x # xs))
           = writes a @ [min 255 ((sint (hi a) - sint (lo a)) * 4)]"
  using assms(2)
proof (induction xs rule: rev_induct)
  case Nil
  show ?case by (simp add: iter_boundary [OF assms(1)])
next
  case (snoc y ys)
  let ?b = "foldl sample_iter a (x # ys)"
  have len: "length ys < 256" and len': "Suc (length ys) < 256" using snoc.prems by simp_all
  note ih = snoc.IH [OF len]
  have "counter ?b = counter a + of_nat (length (x # ys))" by (rule counter_foldl)
  then have "counter ?b + 1 = (counter a + 1) + of_nat (Suc (length ys))" by simp
  then have c: "counter ?b + 1 = of_nat (Suc (length ys))" by (simp only: assms(1)) simp
  have "Suc (length ys) mod 256 \<noteq> 0" using len' by simp
  then have nz: "counter ?b + 1 \<noteq> 0" by (simp only: c boundary_iff) simp
  have "Min (sint ` set (x # ys)) \<le> sint x" by (intro Min_le) simp_all
  moreover have "sint x \<le> Max (sint ` set (x # ys))" by (intro Max_ge) simp_all
  moreover have "sint (lo ?b) = Min (sint ` set (x # ys))"
    and "sint (hi ?b) = Max (sint ` set (x # ys))"
    using ih by blast+
  ultimately have ord: "sint (lo ?b) \<le> sint (hi ?b)" by linarith
  have step: "foldl sample_iter a (x # ys @ [y]) = sample_iter ?b y" by simp
  have "set (x # ys @ [y]) = insert y (set (x # ys))" by auto
  then have img: "sint ` set (x # ys @ [y]) = insert (sint y) (sint ` set (x # ys))"
    by (simp only: image_insert)
  have "sint (lo (sample_iter ?b y)) = min (Min (sint ` set (x # ys))) (sint y)"
    using iter_inner(2) [OF nz ord] ih by simp
  moreover have "sint (hi (sample_iter ?b y)) = max (Max (sint ` set (x # ys))) (sint y)"
    using iter_inner(3) [OF nz ord] ih by simp
  moreover have "writes (sample_iter ?b y) = writes a @ [min 255 ((sint (hi a) - sint (lo a)) * 4)]"
    using iter_inner(1) [OF nz ord] ih by simp
  moreover have "Min (sint ` set (x # ys @ [y])) = min (Min (sint ` set (x # ys))) (sint y)"
    by (simp only: img min.commute [of _ "sint y"]) (rule Min_insert, simp_all)
  moreover have "Max (sint ` set (x # ys @ [y])) = max (Max (sint ` set (x # ys))) (sint y)"
    by (simp only: img max.commute [of _ "sint y"]) (rule Max_insert, simp_all)
  ultimately show ?case by (simp only: step)
qed


text \<open>A full window after a whole number of windows, and the iteration that follows it.\<close>

lemma window_state:
  assumes "length pre mod 256 = 0" and "length w = 256"
  shows "sint (lo (sample_loop (pre @ w))) = Min (sint ` set w)"
    and "sint (hi (sample_loop (pre @ w))) = Max (sint ` set w)"
    and "counter (sample_loop (pre @ w)) + 1 = 0"
proof -
  obtain x xs where w: "w = x # xs" and xs: "length xs < 256"
    using assms(2) by (cases w) simp_all
  have "counter (sample_loop pre) + 1 = of_nat (length pre)" by (rule counter_sample_loop)
  then have c: "counter (sample_loop pre) + 1 = 0" using assms(1) by (simp only: boundary_iff)
  have "sample_loop (pre @ w) = foldl sample_iter (sample_loop pre) (x # xs)"
    by (simp add: sample_loop_def w)
  then show "sint (lo (sample_loop (pre @ w))) = Min (sint ` set w)"
    and "sint (hi (sample_loop (pre @ w))) = Max (sint ` set w)"
    using window_fold [OF c xs, of x] by (simp_all only: w)
  have "counter (sample_loop (pre @ w)) + 1 = of_nat (length (pre @ w))"
    by (rule counter_sample_loop)
  moreover have "length (pre @ w) mod 256 = 0" using assms by simp
  ultimately show "counter (sample_loop (pre @ w)) + 1 = 0" by (simp only: boundary_iff)
qed

lemma window_write:
  assumes "length pre mod 256 = 0" and "length w = 256"
  shows "sample_loop (pre @ w @ [s]) =
           (sample_loop (pre @ w))
             \<lparr>lo := s, hi := s, counter := 0,
              writes := writes (sample_loop (pre @ w))
                        @ [min 255 ((Max (sint ` set w) - Min (sint ` set w)) * 4)]\<rparr>"
proof -
  have "sample_loop (pre @ w @ [s]) = sample_iter (sample_loop (pre @ w)) s"
    using sample_loop_snoc [of "pre @ w" s] by simp
  then show ?thesis
    using iter_boundary [OF window_state(3) [OF assms], of s]
    by (simp only: window_state(1,2) [OF assms])
qed

lemma Min_le_Max_window:
  assumes "length w = 256"
  shows "Min (sint ` set w) \<le> Max (sint ` set w)"
proof -
  obtain x xs where w: "w = x # xs" using assms by (cases w) simp_all
  have "Min (sint ` set w) \<le> sint x" by (intro Min_le) (simp_all add: w)
  moreover have "sint x \<le> Max (sint ` set w)" by (intro Max_ge) (simp_all add: w)
  ultimately show ?thesis by linarith
qed

lemma split_at_window:
  assumes "256 * (k + 1) < length ss"
  shows "take (256 * (k + 1)) ss = take (256 * k) ss @ take 256 (drop (256 * k) ss)"
    and "take (256 * (k + 1) + 1) ss
          = take (256 * k) ss @ take 256 (drop (256 * k) ss) @ [ss ! (256 * (k + 1))]"
    and "length (take (256 * k) ss) mod 256 = 0"
    and "length (take 256 (drop (256 * k) ss)) = 256"
proof -
  have e: "256 * (k + 1) = 256 * k + 256" by simp
  show a: "take (256 * (k + 1)) ss = take (256 * k) ss @ take 256 (drop (256 * k) ss)"
    by (simp only: e take_add)
  have "take (Suc (256 * (k + 1))) ss = take (256 * (k + 1)) ss @ [ss ! (256 * (k + 1))]"
    using assms by (rule take_Suc_conv_app_nth)
  then show "take (256 * (k + 1) + 1) ss
          = take (256 * k) ss @ take 256 (drop (256 * k) ss) @ [ss ! (256 * (k + 1))]"
    by (simp only: a Suc_eq_plus1 append_assoc)
  have "length (take (256 * k) ss) = 256 * k" using assms by simp
  then show "length (take (256 * k) ss) mod 256 = 0" by simp
  show "length (take 256 (drop (256 * k) ss)) = 256" using assms by simp
qed

lemma loud_window:
  "sample_loop (10 # replicate 255 (- 10) @ [0]) =
     (sample_loop (10 # replicate 255 (- 10)))
       \<lparr>lo := 0, hi := 0, counter := 0,
        writes := writes (sample_loop (10 # replicate 255 (- 10))) @ [80]\<rparr>"
proof -
  let ?w = "10 # replicate 255 (- 10 :: 8 word)"
  have "sint ` set ?w = {10, - 10}" by simp
  then have "Max (sint ` set ?w) = 10" and "Min (sint ` set ?w) = - 10" by simp_all
  then show ?thesis
    using window_write [of "[]" ?w 0] by simp
qed

subsection \<open>The brightness written every 256 iterations\<close>

text \<open>
  C6. Iteration number \<open>256 * (k + 1)\<close> of the sample loop comes after a window of exactly
  256 samples, those read by the iterations \<open>256 * k\<close> to \<open>256 * k + 255\<close>. When it starts,
  \<open>lo\<close> and \<open>hi\<close> are the minimum and the maximum of the window; it writes the brightness
  \<open>clamp ((high - low) * 4, 0, 255)\<close> to the mouth LED and leaves \<open>lo\<close> and \<open>hi\<close> at the
  sample it read. An iteration whose number is not a multiple of 256 writes nothing and
  folds its sample into \<open>lo\<close> and \<open>hi\<close> by minimum and maximum.
\<close>

theorem mouth_update_every_256:
  fixes ss :: "8 word list"
  shows
   "(256 * (k + 1) < length ss \<longrightarrow>
       (let w = take 256 (drop (256 * k) ss);
            low = Min (sint ` set w);
            high = Max (sint ` set w);
            before = sample_loop (take (256 * (k + 1)) ss);
            after = sample_loop (take (256 * (k + 1) + 1) ss)
        in sint (lo before) = low \<and> sint (hi before) = high
         \<and> writes after = writes before @ [max 0 (min 255 ((high - low) * 4))]
         \<and> lo after = ss ! (256 * (k + 1)) \<and> hi after = ss ! (256 * (k + 1))))
    \<and> (i < length ss \<and> i mod 256 \<noteq> 0 \<longrightarrow>
       (let before = sample_loop (take i ss);
            after = sample_loop (take (i + 1) ss)
        in writes after = writes before
         \<and> sint (lo after) = min (sint (lo before)) (sint (ss ! i))
         \<and> sint (hi after) = max (sint (hi before)) (sint (ss ! i))))"
proof (intro conjI impI)
  assume len: "256 * (k + 1) < length ss"
  let ?pre = "take (256 * k) ss"
  let ?w = "take 256 (drop (256 * k) ss)"
  let ?s = "ss ! (256 * (k + 1))"
  note sp = split_at_window [OF len]
  note st = window_state [OF sp(3,4)]
  note wr = window_write [OF sp(3,4), of ?s]
  have "0 \<le> (Max (sint ` set ?w) - Min (sint ` set ?w)) * 4"
    using Min_le_Max_window [OF sp(4)] by simp
  then have clamp: "max 0 (min 255 ((Max (sint ` set ?w) - Min (sint ` set ?w)) * 4))
                  = min 255 ((Max (sint ` set ?w) - Min (sint ` set ?w)) * 4)"
    by simp
  show "let w = ?w; low = Min (sint ` set w); high = Max (sint ` set w);
            before = sample_loop (take (256 * (k + 1)) ss);
            after = sample_loop (take (256 * (k + 1) + 1) ss)
        in sint (lo before) = low \<and> sint (hi before) = high
         \<and> writes after = writes before @ [max 0 (min 255 ((high - low) * 4))]
         \<and> lo after = ?s \<and> hi after = ?s"
    unfolding Let_def by (simp only: sp(1,2) st wr clamp) simp
next
  assume "i < length ss \<and> i mod 256 \<noteq> 0"
  then have i: "i < length ss" and nb: "i mod 256 \<noteq> 0" by simp_all
  let ?b = "sample_loop (take i ss)"
  have "counter ?b + 1 = of_nat (length (take i ss))" by (rule counter_sample_loop)
  then have "counter ?b + 1 = of_nat i" using i by simp
  then have nz: "counter ?b + 1 \<noteq> 0" using nb by (simp only: boundary_iff) simp
  have ord: "sint (lo ?b) \<le> sint (hi ?b)" using sample_loop_inv [of "take i ss"] by blast
  have step: "sample_loop (take (i + 1) ss) = sample_iter ?b (ss ! i)"
    using sample_loop_take_Suc [OF i] by simp
  show "let before = sample_loop (take i ss); after = sample_loop (take (i + 1) ss)
        in writes after = writes before
         \<and> sint (lo after) = min (sint (lo before)) (sint (ss ! i))
         \<and> sint (hi after) = max (sint (hi before)) (sint (ss ! i))"
    unfolding Let_def using iter_inner [OF nz ord, of "ss ! i"] by (simp only: step)
qed

theorem mouth_update_every_256_witness:
  "256 * (0 + 1) < length (10 # replicate 255 (- 10 :: 8 word) @ [0])
   \<and> (1 < length (10 # replicate 255 (- 10 :: 8 word) @ [0]) \<and> (1 :: nat) mod 256 \<noteq> 0)
   \<and> writes (sample_loop (10 # replicate 255 (- 10) @ [0]))
       = writes (sample_loop (10 # replicate 255 (- 10))) @ [80]
   \<and> lo (sample_loop (10 # replicate 255 (- 10) @ [0])) = 0
   \<and> writes (sample_loop [10, - 10]) = writes (sample_loop [10])
   \<and> sint (lo (sample_loop [10, - 10])) = min (sint (lo (sample_loop [10]))) (- 10)"
proof -
  let ?ss = "10 # replicate 255 (- 10 :: 8 word) @ [0]"
  have h1: "256 * (0 + 1) < length ?ss" by simp
  have h2: "1 < length ?ss \<and> (1 :: nat) mod 256 \<noteq> 0" by simp
  have img: "sint ` set (10 # replicate 255 (- 10 :: 8 word)) = {10, - 10}" by simp
  have mm: "Max (sint ` set (10 # replicate 255 (- 10 :: 8 word))) = 10"
    "Min (sint ` set (10 # replicate 255 (- 10 :: 8 word))) = - 10"
    by (simp_all only: img) simp_all
  have t1: "take 256 (drop (256 * 0) ?ss) = 10 # replicate 255 (- 10)"
    "take (256 * (0 + 1)) ?ss = 10 # replicate 255 (- 10)"
    "take (256 * (0 + 1) + 1) ?ss = ?ss"
    "?ss ! (256 * (0 + 1)) = 0"
    by (simp_all add: nth_append nth_Cons')
  have t2: "take 1 ?ss = [10]" "take (1 + 1) ?ss = [10, - 10]" "?ss ! 1 = - 10"
    by (simp_all add: take_Cons' nth_Cons' nth_append)
  note t = mouth_update_every_256 [of 0 ?ss 1]
  have a: "writes (sample_loop ?ss) = writes (sample_loop (10 # replicate 255 (- 10))) @ [80]
        \<and> lo (sample_loop ?ss) = 0"
    using t [THEN conjunct1, rule_format, OF h1] unfolding Let_def by (simp only: t1 mm) simp
  have b: "writes (sample_loop [10, - 10]) = writes (sample_loop [10])
       \<and> sint (lo (sample_loop [10, - 10])) = min (sint (lo (sample_loop [10]))) (- 10)"
    using t [THEN conjunct2, rule_format, OF h2] unfolding Let_def by (simp only: t2) simp
  show ?thesis using h1 h2 a b by (intro conjI) blast+
qed

subsection \<open>The amplitude range is ordered\<close>

text \<open>
  C9. After any number of iterations of the sample loop \<open>lo \<le> hi\<close> holds (as signed
  values), so \<open>(hi - lo) * 4\<close> is not negative, and every brightness written to the mouth LED
  lies between 0 and 255, although the code only caps it at 255.
\<close>

theorem amplitude_range_ordered:
  fixes ss :: "8 word list"
  shows "sint (lo (sample_loop (take n ss))) \<le> sint (hi (sample_loop (take n ss)))
       \<and> 0 \<le> (sint (hi (sample_loop (take n ss))) - sint (lo (sample_loop (take n ss)))) * 4
       \<and> (\<forall>b \<in> set (writes (sample_loop (take n ss))). 0 \<le> b \<and> b \<le> 255)"
  using sample_loop_inv [of "take n ss"] by simp

theorem amplitude_range_ordered_witness:
  "writes (sample_loop (take 2 [3, 251])) = [0]
   \<and> sint (lo (sample_loop (take 2 [3, 251]))) \<le> sint (hi (sample_loop (take 2 [3, 251])))
   \<and> 0 \<le> last (writes (sample_loop (take 2 [3, 251])))
   \<and> last (writes (sample_loop (take 2 [3, 251]))) \<le> 255"
proof -
  let ?a = "sample_loop (take 2 [3, 251])"
  have w: "writes ?a = [0]"
    by (simp add: sample_loop_def sample_iter_def amp_init_def Let_def word_sless_alt)
  then have "last (writes ?a) \<in> set (writes ?a)" by simp
  then have "0 \<le> last (writes ?a) \<and> last (writes ?a) \<le> 255"
    using amplitude_range_ordered [of 2 "[3, 251]"] by blast
  moreover have "sint (lo ?a) \<le> sint (hi ?a)"
    using amplitude_range_ordered [of 2 "[3, 251]"] by blast
  ultimately show ?thesis using w by blast
qed

section \<open>The eyes\<close>

subsection \<open>One tick of the blink timer\<close>

lemma dwell_closed: "unat (of_nat (5 + random_howbig r 11) :: 8 word) = 5 + r mod 11"
proof -
  have "r mod 11 < 11" by simp
  then have "5 + r mod 11 < 256" by linarith
  then show ?thesis by (simp only: unat_of_nat random_howbig_def) simp
qed

lemma dwell_open: "unat (of_nat (8 + random_howbig r 120) :: 8 word) = 8 + r mod 120"
proof -
  have "r mod 120 < 120" by simp
  then have "8 + r mod 120 < 256" by linarith
  then show ?thesis by (simp only: unat_of_nat random_howbig_def) simp
qed

lemma tick_idle:
  assumes "counter_isr e - 1 \<noteq> 0"
  shows "TIMER2_OVF_vect r e = e\<lparr>counter_isr := counter_isr e - 1\<rparr>"
  using assms by (simp add: TIMER2_OVF_vect_def Let_def)

lemma tick_blink:
  assumes "counter_isr e - 1 = 0" and "(blinking e + 1) AND 1 \<noteq> 0"
  shows "TIMER2_OVF_vect r e =
           e\<lparr>counter_isr := of_nat (5 + random_howbig r 11), blinking := blinking e + 1,
             led_eyes := False\<rparr>"
  using assms by (simp add: TIMER2_OVF_vect_def Let_def)

lemma tick_open:
  assumes "counter_isr e - 1 = 0" and "(blinking e + 1) AND 1 = 0"
  shows "TIMER2_OVF_vect r e =
           e\<lparr>counter_isr := of_nat (8 + random_howbig r 120), blinking := blinking e + 1,
             led_eyes := True\<rparr>"
  using assms by (simp add: TIMER2_OVF_vect_def Let_def)

subsection \<open>Toggling and dwell times\<close>

text \<open>
  C8. For every state of the interrupt routine and every value drawn by the random
  generator: the eye LED level and the blink phase (the parity counter \<^verbatim>\<open>blinking\<close>) change
  only on a tick where the decremented counter reaches zero; on such a tick the new counter
  value, the dwell in ticks, is between 5 and 15 when the eyes are closed (LED low) and
  between 8 and 127 when they are opened (LED high).
\<close>

theorem blink_toggle_and_dwell:
  "(led_eyes (TIMER2_OVF_vect r e) \<noteq> led_eyes e \<or> blinking (TIMER2_OVF_vect r e) \<noteq> blinking e
      \<longrightarrow> counter_isr e - 1 = 0)
   \<and> (counter_isr e - 1 = 0 \<and> \<not> led_eyes (TIMER2_OVF_vect r e)
      \<longrightarrow> 5 \<le> unat (counter_isr (TIMER2_OVF_vect r e))
        \<and> unat (counter_isr (TIMER2_OVF_vect r e)) \<le> 15)
   \<and> (counter_isr e - 1 = 0 \<and> led_eyes (TIMER2_OVF_vect r e)
      \<longrightarrow> 8 \<le> unat (counter_isr (TIMER2_OVF_vect r e))
        \<and> unat (counter_isr (TIMER2_OVF_vect r e)) \<le> 127)"
proof (cases "counter_isr e - 1 = 0")
  case False
  then show ?thesis by (simp add: tick_idle)
next
  case zero: True
  have c: "r mod 11 \<le> 10" and o: "r mod 120 \<le> 119"
    using mod_less_divisor [of 11 r] mod_less_divisor [of 120 r] by linarith+
  show ?thesis
  proof (cases "(blinking e + 1) AND 1 = 0")
    case True
    show ?thesis using o by (simp add: tick_open [OF zero True] dwell_open zero del: of_nat_add)
  next
    case False
    show ?thesis using c by (simp add: tick_blink [OF zero False] dwell_closed zero del: of_nat_add)
  qed
qed

theorem blink_toggle_and_dwell_witness:
  "led_eyes (TIMER2_OVF_vect 25 \<lparr>counter_isr = 1, blinking = 2, led_eyes = True\<rparr>) \<noteq> True
   \<and> (1 :: 8 word) - 1 = 0
   \<and> 5 \<le> unat (counter_isr (TIMER2_OVF_vect 25 \<lparr>counter_isr = 1, blinking = 2, led_eyes = True\<rparr>))
   \<and> unat (counter_isr (TIMER2_OVF_vect 25 \<lparr>counter_isr = 1, blinking = 2, led_eyes = True\<rparr>)) \<le> 15
   \<and> led_eyes (TIMER2_OVF_vect 7 eyes_init)
   \<and> 8 \<le> unat (counter_isr (TIMER2_OVF_vect 7 eyes_init))
   \<and> unat (counter_isr (TIMER2_OVF_vect 7 eyes_init)) \<le> 127"
proof -
  let ?e = "\<lparr>counter_isr = 1 :: 8 word, blinking = 2 :: 8 word, led_eyes = True\<rparr>"
  have a: "\<not> led_eyes (TIMER2_OVF_vect 25 ?e)"
    by (simp add: TIMER2_OVF_vect_def Let_def)
  have z: "counter_isr ?e - 1 = 0" by simp
  have b: "led_eyes (TIMER2_OVF_vect 7 eyes_init)"
    by (simp add: TIMER2_OVF_vect_def Let_def eyes_init_def)
  have z': "counter_isr eyes_init - 1 = 0" by (simp add: eyes_init_def)
  have "5 \<le> unat (counter_isr (TIMER2_OVF_vect 25 ?e))
      \<and> unat (counter_isr (TIMER2_OVF_vect 25 ?e)) \<le> 15"
    using blink_toggle_and_dwell [of 25 ?e] z a by blast
  moreover have "8 \<le> unat (counter_isr (TIMER2_OVF_vect 7 eyes_init))
      \<and> unat (counter_isr (TIMER2_OVF_vect 7 eyes_init)) \<le> 127"
    using blink_toggle_and_dwell [of 7 eyes_init] z' b by blast
  ultimately show ?thesis using a b by simp
qed

section \<open>Playing files\<close>

subsection \<open>The filename buffer and one call of \<^verbatim>\<open>playfile\<close>\<close>

lemma strlen_P_length:
  assumes "NUL \<notin> set n"
  shows "strlen_P n = length n"
proof -
  have "takeWhile (\<lambda>c. c \<noteq> NUL) n = n"
    using assms by (subst takeWhile_eq_all_conv) blast
  then show ?thesis by (simp only: strlen_P_def)
qed

lemma NUL_notin_WAV: "NUL \<notin> set ''.WAV''"
  by (simp add: NUL_def)

lemma memcpy_P_name:
  assumes "filename_ok buf" and "length n \<le> 8"
  shows "memcpy_P buf (8 - length n) n (length n)
           = take (8 - length n) buf @ n @ ''.WAV'' @ [NUL]"
proof -
  have "8 - length n + length n = 8" using assms(2) by simp
  moreover have "drop 8 buf = ''.WAV'' @ [NUL]" using assms(1) by (simp add: filename_ok_def)
  ultimately show ?thesis by (simp add: memcpy_P_def)
qed

lemma filename_ok_name:
  assumes "filename_ok buf" and "length n \<le> 8"
  shows "filename_ok (take (8 - length n) buf @ n @ ''.WAV'' @ [NUL])"
proof -
  have l: "length (take (8 - length n) buf) = 8 - length n"
    using assms by (simp add: filename_ok_def)
  then have "length (take (8 - length n) buf @ n) = 8" using assms(2) by simp
  then have "drop 8 ((take (8 - length n) buf @ n) @ ''.WAV'' @ [NUL]) = ''.WAV'' @ [NUL]"
    by (simp only: drop_append) simp
  moreover have "length ((take (8 - length n) buf @ n) @ ''.WAV'' @ [NUL]) = 13"
    using l assms(2) by simp
  ultimately show ?thesis by (simp only: filename_ok_def append_assoc)
qed

lemma cstring_name:
  assumes "filename_ok buf" and "length n \<le> 8" and "NUL \<notin> set n"
  shows "cstring (take (8 - length n) buf @ n @ ''.WAV'' @ [NUL]) (8 - length n) = n @ ''.WAV''"
proof -
  have l: "length (take (8 - length n) buf) = 8 - length n"
    using assms by (simp add: filename_ok_def)
  have "drop (8 - length n) (take (8 - length n) buf @ n @ ''.WAV'' @ [NUL])
          = (n @ ''.WAV'') @ [NUL]"
    using l by simp
  moreover have "takeWhile (\<lambda>c. c \<noteq> NUL) ((n @ ''.WAV'') @ [NUL]) = n @ ''.WAV''"
    using assms(3) NUL_notin_WAV by (subst takeWhile_append2) auto
  ultimately show ?thesis by (simp only: cstring_def)
qed

lemma playfile_eq:
  assumes "filename_ok (filename w)" and "length n \<le> 8" and "NUL \<notin> set n"
  shows "playfile sd (Some n) w =
           Inr (case sd (n @ ''.WAV'') of
                  Wav ss \<Rightarrow>
                    w\<lparr>filename := take (8 - length n) (filename w) @ n @ ''.WAV'' @ [NUL],
                      opened := opened w @ [n @ ''.WAV''],
                      played := played w @ [n @ ''.WAV''],
                      mouth := (if writes (sample_loop ss) = [] then mouth w
                                else AnalogOut (last (writes (sample_loop ss))))\<rparr>
                | NotWav \<Rightarrow>
                    w\<lparr>filename := take (8 - length n) (filename w) @ n @ ''.WAV'' @ [NUL],
                      opened := opened w @ [n @ ''.WAV''],
                      serial := serial w @ (n @ ''.WAV'') @ println '': Not a valid WAV''\<rparr>
                | NotFound \<Rightarrow>
                    w\<lparr>filename := take (8 - length n) (filename w) @ n @ ''.WAV'' @ [NUL],
                      opened := opened w @ [n @ ''.WAV''],
                      serial := serial w @ ''Couldn't open file: '' @ n @ ''.WAV''\<rparr>)"
proof -
  have len: "strlen_P n = length n" using assms(3) by (rule strlen_P_length)
  note m = memcpy_P_name [OF assms(1,2)]
  note c = cstring_name [OF assms]
  show ?thesis
    unfolding playfile_def option.case len Let_def m c
    using assms(2) by (cases "sd (n @ ''.WAV'')") simp_all
qed


lemma playfile_fields:
  assumes "filename_ok (filename w)" and "length n \<le> 8" and "NUL \<notin> set n"
  shows "\<exists>w'. playfile sd (Some n) w = Inr w'
            \<and> filename_ok (filename w')
            \<and> debounceTime w' = debounceTime w
            \<and> opened w' = opened w @ [n @ ''.WAV'']
            \<and> played w' = played w @ (case sd (n @ ''.WAV'') of Wav ss \<Rightarrow> [n @ ''.WAV''] | _ \<Rightarrow> [])
            \<and> serial w' = serial w
                 @ (case sd (n @ ''.WAV'') of
                      NotFound \<Rightarrow> ''Couldn't open file: '' @ n @ ''.WAV''
                    | NotWav \<Rightarrow> (n @ ''.WAV'') @ println '': Not a valid WAV''
                    | Wav ss \<Rightarrow> [])
            \<and> mouth w' = (case sd (n @ ''.WAV'') of
                            Wav ss \<Rightarrow> (if writes (sample_loop ss) = [] then mouth w
                                        else AnalogOut (last (writes (sample_loop ss))))
                          | _ \<Rightarrow> mouth w)"
  using filename_ok_name [OF assms(1,2)]
  by (cases "sd (n @ ''.WAV'')") (simp_all only: playfile_eq [OF assms], simp_all)

lemma play_each_names:
  assumes "filename_ok (filename w)" and "\<forall>n \<in> set ns. length n \<le> 8 \<and> NUL \<notin> set n"
  shows "\<exists>w'. play_each sd (map (\<lambda>n. Inr (Some n)) ns) w = Inr w'
            \<and> filename_ok (filename w')
            \<and> debounceTime w' = debounceTime w
            \<and> opened w' = opened w @ map (\<lambda>n. n @ ''.WAV'') ns
            \<and> played w' = played w
                 @ concat (map (\<lambda>n. case sd (n @ ''.WAV'') of Wav ss \<Rightarrow> [n @ ''.WAV''] | _ \<Rightarrow> []) ns)
            \<and> serial w' = serial w
                 @ concat (map (\<lambda>n. case sd (n @ ''.WAV'') of
                                       NotFound \<Rightarrow> ''Couldn't open file: '' @ n @ ''.WAV''
                                     | NotWav \<Rightarrow> (n @ ''.WAV'') @ println '': Not a valid WAV''
                                     | Wav ss \<Rightarrow> []) ns)"
  using assms
proof (induction ns arbitrary: w)
  case Nil
  then show ?case by simp
next
  case (Cons n ns)
  have n: "length n \<le> 8" "NUL \<notin> set n" using Cons.prems(2) by simp_all
  have ns: "\<forall>n \<in> set ns. length n \<le> 8 \<and> NUL \<notin> set n" using Cons.prems(2) by simp
  obtain w1 where w1: "playfile sd (Some n) w = Inr w1"
    and ok1: "filename_ok (filename w1)"
    and f1: "debounceTime w1 = debounceTime w"
      "opened w1 = opened w @ [n @ ''.WAV'']"
      "played w1 = played w @ (case sd (n @ ''.WAV'') of Wav ss \<Rightarrow> [n @ ''.WAV''] | _ \<Rightarrow> [])"
      "serial w1 = serial w
                 @ (case sd (n @ ''.WAV'') of
                      NotFound \<Rightarrow> ''Couldn't open file: '' @ n @ ''.WAV''
                    | NotWav \<Rightarrow> (n @ ''.WAV'') @ println '': Not a valid WAV''
                    | Wav ss \<Rightarrow> [])"
    using playfile_fields [OF Cons.prems(1) n, of sd] by blast
  obtain w' where w': "play_each sd (map (\<lambda>n. Inr (Some n)) ns) w1 = Inr w'"
    and ok': "filename_ok (filename w')"
    and f': "debounceTime w' = debounceTime w1"
      "opened w' = opened w1 @ map (\<lambda>n. n @ ''.WAV'') ns"
      "played w' = played w1
                 @ concat (map (\<lambda>n. case sd (n @ ''.WAV'') of Wav ss \<Rightarrow> [n @ ''.WAV''] | _ \<Rightarrow> []) ns)"
      "serial w' = serial w1
                 @ concat (map (\<lambda>n. case sd (n @ ''.WAV'') of
                                       NotFound \<Rightarrow> ''Couldn't open file: '' @ n @ ''.WAV''
                                     | NotWav \<Rightarrow> (n @ ''.WAV'') @ println '': Not a valid WAV''
                                     | Wav ss \<Rightarrow> []) ns)"
    using Cons.IH [OF ok1 ns] by blast
  have "play_each sd (map (\<lambda>n. Inr (Some n)) (n # ns)) w = Inr w'"
    using w1 w' by simp
  then show ?case
    using ok' by (intro exI [of _ w']) (simp add: f1 f')
qed

lemma clip_ids_ok: "\<forall>n \<in> set clip_ids. 1 \<le> length n \<and> length n \<le> 8 \<and> NUL \<notin> set n"
  by (simp add: clip_ids_def boot_def annc_def hours_def mTens_def mTeens_def mTenX_def mins_def
      ampm_def List.map_filter_def NUL_def)

lemma map_filter_mem: "Some n \<in> set xs \<Longrightarrow> n \<in> set (List.map_filter (\<lambda>c. c) xs)"
  by (induction xs) (auto simp add: map_filter_simps split: option.splits)

lemma read_in_clip_ids:
  assumes "pgm_read_word t i = Inr (Some n)"
    and "set t \<subseteq> set (hours @ mTens @ mTeens @ mTenX @ mins @ ampm)"
  shows "n \<in> set clip_ids"
proof -
  have "0 \<le> i \<and> i < int (length t) \<and> t ! nat i = Some n"
    using assms(1) by (simp add: pgm_read_word_def split: if_splits)
  then have "nat i < length t" and "t ! nat i = Some n" by linarith+
  then have "Some n \<in> set t" using nth_mem [of "nat i" t] by simp
  then have "Some n \<in> set (hours @ mTens @ mTeens @ mTenX @ mins @ ampm)"
    using assms(2) by blast
  then have "n \<in> set (List.map_filter (\<lambda>c. c) (hours @ mTens @ mTeens @ mTenX @ mins @ ampm))"
    by (rule map_filter_mem)
  then show ?thesis by (simp add: clip_ids_def)
qed

lemma minute_phrase_in_clip_ids:
  assumes "Inr (Some n) \<in> set (minute_phrase t u)"
  shows "n \<in> set clip_ids"
proof -
  from assms consider "pgm_read_word mTens (uint t) = Inr (Some n)"
    | "pgm_read_word mTeens (uint u - 1) = Inr (Some n)"
    | "pgm_read_word mTenX (uint t) = Inr (Some n)"
    | "pgm_read_word mins (uint u - 1) = Inr (Some n)"
    by (auto simp add: minute_phrase_def split: if_splits)
  then show ?thesis
    by cases (erule read_in_clip_ids, auto)+
qed

lemma phrase_in_clip_ids:
  assumes "Inr (Some n) \<in> set (phrase h m)"
  shows "n \<in> set clip_ids"
proof -
  from assms consider "n = annc"
    | "pgm_read_word hours (uint (if 12 \<le> h then h - 12 else h)) = Inr (Some n)"
    | "Inr (Some n) \<in> set (minute_phrase (m div 10) (m mod 10))"
    | "pgm_read_word ampm (if 12 \<le> h then 1 else 0) = Inr (Some n)"
    unfolding phrase_unfold by auto
  then show ?thesis
  proof cases
    case 1
    then show ?thesis by (simp add: clip_ids_def)
  next
    case 2
    then show ?thesis by (rule read_in_clip_ids) auto
  next
    case 3
    then show ?thesis by (rule minute_phrase_in_clip_ids)
  next
    case 4
    then show ?thesis by (rule read_in_clip_ids) auto
  qed
qed

lemma play_each_snoc_names:
  "play_each sd (cs @ [c]) w =
     (case play_each sd cs w of
        Inl e \<Rightarrow> Inl e
      | Inr w' \<Rightarrow> play_each sd [c] w')"
  by (induction sd cs w rule: play_each.induct) (simp_all split: sum.splits)

lemmas playfile_eval =
  playfile_def strlen_P_def memcpy_P_def cstring_def NUL_def Let_def sdcard_of_def println_def

subsection \<open>The name passed to \<^verbatim>\<open>file.open\<close>\<close>

text \<open>
  C10. Every clip identifier of the sketch has 1 to 8 characters, and whatever names (of at
  most 8 characters) earlier calls of \<^verbatim>\<open>playfile\<close> have left in the static buffer, the call
  for a clip identifier passes exactly the identifier followed by \<^verbatim>\<open>.WAV\<close> to \<^verbatim>\<open>file.open\<close>.
\<close>

theorem filename_is_name_dot_WAV:
  assumes "\<forall>e \<in> set earlier. length e \<le> 8 \<and> NUL \<notin> set e"
    and "n \<in> set clip_ids"
  shows "1 \<le> length n \<and> length n \<le> 8
       \<and> (\<exists>w w'. play_each sd (map (\<lambda>e. Inr (Some e)) earlier) world_init = Inr w
               \<and> playfile sd (Some n) w = Inr w'
               \<and> opened w' = opened w @ [n @ ''.WAV''])"
proof -
  have n: "1 \<le> length n" "length n \<le> 8" "NUL \<notin> set n"
    using clip_ids_ok assms(2) by blast+
  have ok0: "filename_ok (filename world_init)"
    by (simp add: world_init_def filename_init_def filename_ok_def)
  obtain w where w: "play_each sd (map (\<lambda>e. Inr (Some e)) earlier) world_init = Inr w"
    and ok: "filename_ok (filename w)"
    using play_each_names [OF ok0 assms(1), of sd] by blast
  obtain w' where "playfile sd (Some n) w = Inr w'" and "opened w' = opened w @ [n @ ''.WAV'']"
    using playfile_fields [OF ok n(2,3), of sd] by blast
  then show ?thesis using n(1,2) w by blast
qed

theorem filename_is_name_dot_WAV_witness:
  "(length annc \<le> 8 \<and> NUL \<notin> set annc) \<and> ''m5'' \<in> set clip_ids
   \<and> (\<exists>w w'. play_each (sdcard_of []) [Inr (Some annc)] world_init = Inr w
           \<and> filename w = ''XXXXannc.WAV'' @ [NUL]
           \<and> playfile (sdcard_of []) (Some ''m5'') w = Inr w'
           \<and> filename w' = ''XXXXanm5.WAV'' @ [NUL]
           \<and> opened w' = [''annc.WAV'', ''m5.WAV''])"
proof -
  have a: "length annc \<le> 8 \<and> NUL \<notin> set annc" by (simp add: annc_def NUL_def)
  then have e: "\<forall>e \<in> set [annc]. length e \<le> 8 \<and> NUL \<notin> set e" by simp
  have n: "''m5'' \<in> set clip_ids"
    unfolding clip_ids_def by (intro list.set_intros(2) map_filter_mem) (simp add: mins_def)
  obtain w w' where w: "play_each (sdcard_of []) (map (\<lambda>e. Inr (Some e)) [annc]) world_init = Inr w"
    and w': "playfile (sdcard_of []) (Some ''m5'') w = Inr w'"
    and o: "opened w' = opened w @ [''m5.WAV'']"
    using filename_is_name_dot_WAV [OF e n, of "sdcard_of []"] by auto
  have "playfile (sdcard_of []) (Some annc) world_init =
          Inr \<lparr>filename = ''XXXXannc.WAV'' @ [NUL], debounceTime = 0, mouth = Input,
               serial = ''Couldn't open file: annc.WAV'', opened = [''annc.WAV''], played = []\<rparr>"
    by (simp add: playfile_eval world_init_def filename_init_def annc_def)
  then have weq: "w = \<lparr>filename = ''XXXXannc.WAV'' @ [NUL], debounceTime = 0, mouth = Input,
               serial = ''Couldn't open file: annc.WAV'', opened = [''annc.WAV''], played = []\<rparr>"
    using w by simp
  have "filename w' = ''XXXXanm5.WAV'' @ [NUL]"
    using w' unfolding weq by (auto simp add: playfile_eval)
  moreover have "filename w = ''XXXXannc.WAV'' @ [NUL]" and "opened w = [''annc.WAV'']"
    by (simp_all add: weq)
  ultimately show ?thesis using w w' o a n by auto
qed

section \<open>One activation\<close>

subsection \<open>A phrase played on any card\<close>

lemma filename_ok_init: "filename_ok (filename world_init)"
  by (simp add: world_init_def filename_init_def filename_ok_def)

lemma writes_iter_grows: "length (writes a) \<le> length (writes (sample_iter a s))"
  by (simp add: sample_iter_def Let_def)

lemma writes_foldl_grows: "length (writes a) \<le> length (writes (foldl sample_iter a xs))"
proof (induction xs arbitrary: a)
  case Nil
  show ?case by simp
next
  case (Cons x xs)
  show ?case using writes_iter_grows [of a x] Cons.IH [of "sample_iter a x"] by simp
qed

lemma writes_nonempty:
  assumes "ss \<noteq> []"
  shows "writes (sample_loop ss) \<noteq> []"
proof -
  obtain x xs where ss: "ss = x # xs" using assms by (cases ss) simp_all
  have "counter amp_init + 1 = 0" by (simp add: amp_init_def)
  then have "length (writes (sample_iter amp_init x)) = 1"
    by (simp add: iter_boundary amp_init_def)
  then have "1 \<le> length (writes (foldl sample_iter (sample_iter amp_init x) xs))"
    using writes_foldl_grows [of "sample_iter amp_init x" xs] by simp
  then show ?thesis by (auto simp add: sample_loop_def ss)
qed

lemma writes_empty_iff: "(writes (sample_loop ss) = []) = (ss = [])"
  using writes_nonempty [of ss] by (auto simp add: sample_loop_def amp_init_def)

lemma phrase_ok_names:
  fixes h m :: "8 word"
  assumes "h < 24" and "m < 60"
  shows "\<exists>ns. phrase h m = map (\<lambda>n. Inr (Some n)) ns
            \<and> (\<forall>n \<in> set ns. length n \<le> 8 \<and> NUL \<notin> set n)"
proof -
  obtain ns where ns: "phrase h m = map (\<lambda>n. Inr (Some n)) ns"
    using phrase_names [OF assms] by blast
  have "length n \<le> 8 \<and> NUL \<notin> set n" if "n \<in> set ns" for n
  proof -
    have "Inr (Some n) \<in> set (phrase h m)" using that by (simp add: ns)
    then have "n \<in> set clip_ids" by (rule phrase_in_clip_ids)
    then show ?thesis using clip_ids_ok by blast
  qed
  then show ?thesis using ns by blast
qed

lemma loop_activation:
  assumes "filename_ok (filename w)" and "hour i < 24" and "minute i < 60"
    and "trigger_low i" and "0 \<le>s millis i - debounceTime w"
  shows "\<exists>ns w'. phrase (hour i) (minute i) = map (\<lambda>n. Inr (Some n)) ns
            \<and> loop i w = Inr w'
            \<and> filename_ok (filename w')
            \<and> debounceTime w' = debounceTime w
            \<and> mouth w' = Input
            \<and> opened w' = opened w @ map (\<lambda>n. n @ ''.WAV'') ns
            \<and> played w' = played w
                 @ concat (map (\<lambda>n. case sdcard i (n @ ''.WAV'') of
                                       Wav ss \<Rightarrow> [n @ ''.WAV''] | _ \<Rightarrow> []) ns)
            \<and> serial w' = serial w
                 @ concat (map (\<lambda>n. case sdcard i (n @ ''.WAV'') of
                                       NotFound \<Rightarrow> ''Couldn't open file: '' @ n @ ''.WAV''
                                     | NotWav \<Rightarrow> (n @ ''.WAV'') @ println '': Not a valid WAV''
                                     | Wav ss \<Rightarrow> []) ns)"
proof -
  obtain ns where ns: "phrase (hour i) (minute i) = map (\<lambda>n. Inr (Some n)) ns"
    and ok: "\<forall>n \<in> set ns. length n \<le> 8 \<and> NUL \<notin> set n"
    using phrase_ok_names [OF assms(2,3)] by blast
  obtain w1 where w1: "play_each (sdcard i) (map (\<lambda>n. Inr (Some n)) ns) w = Inr w1"
    and f: "filename_ok (filename w1)" "debounceTime w1 = debounceTime w"
      "opened w1 = opened w @ map (\<lambda>n. n @ ''.WAV'') ns"
      "played w1 = played w
                 @ concat (map (\<lambda>n. case sdcard i (n @ ''.WAV'') of
                                       Wav ss \<Rightarrow> [n @ ''.WAV''] | _ \<Rightarrow> []) ns)"
      "serial w1 = serial w
                 @ concat (map (\<lambda>n. case sdcard i (n @ ''.WAV'') of
                                       NotFound \<Rightarrow> ''Couldn't open file: '' @ n @ ''.WAV''
                                     | NotWav \<Rightarrow> (n @ ''.WAV'') @ println '': Not a valid WAV''
                                     | Wav ss \<Rightarrow> []) ns)"
    using play_each_names [OF assms(1) ok, of "sdcard i"] by blast
  have "loop i w = Inr (w1\<lparr>mouth := Input\<rparr>)"
    using assms(4,5) by (simp add: loop_def ns w1)
  then show ?thesis
    using ns f by (intro exI [of _ ns] exI [of _ "w1\<lparr>mouth := Input\<rparr>"]) simp
qed

lemma names_of_phrase:
  "[n @ ''.WAV''. Inr (Some n) \<leftarrow> map (\<lambda>n. Inr (Some n)) ns] = map (\<lambda>n. n @ ''.WAV'') ns"
  by (induction ns) simp_all

lemma loops_held:
  assumes "filename_ok (filename w)"
    and "\<forall>i \<in> set polls. hour i < 24 \<and> minute i < 60 \<and> trigger_low i
                          \<and> 0 \<le>s millis i - debounceTime w"
  shows "\<exists>w'. loops polls w = Inr w'
            \<and> filename_ok (filename w')
            \<and> debounceTime w' = debounceTime w
            \<and> opened w' = opened w
                 @ concat (map (\<lambda>i. [n @ ''.WAV''. Inr (Some n) \<leftarrow> phrase (hour i) (minute i)]) polls)"
  using assms
proof (induction polls arbitrary: w)
  case Nil
  then show ?case by simp
next
  case (Cons i polls)
  have i: "hour i < 24" "minute i < 60" "trigger_low i" "0 \<le>s millis i - debounceTime w"
    using Cons.prems(2) by simp_all
  obtain ns w1 where ns: "phrase (hour i) (minute i) = map (\<lambda>n. Inr (Some n)) ns"
    and w1: "loop i w = Inr w1" and ok1: "filename_ok (filename w1)"
    and d1: "debounceTime w1 = debounceTime w"
    and o1: "opened w1 = opened w @ map (\<lambda>n. n @ ''.WAV'') ns"
    using loop_activation [OF Cons.prems(1) i] by blast
  have rest: "\<forall>i \<in> set polls. hour i < 24 \<and> minute i < 60 \<and> trigger_low i
                          \<and> 0 \<le>s millis i - debounceTime w1"
    using Cons.prems(2) by (simp add: d1)
  obtain w' where w': "loops polls w1 = Inr w'" and ok': "filename_ok (filename w')"
    and d': "debounceTime w' = debounceTime w1"
    and o': "opened w' = opened w1
                 @ concat (map (\<lambda>i. [n @ ''.WAV''. Inr (Some n) \<leftarrow> phrase (hour i) (minute i)]) polls)"
    using Cons.IH [OF ok1 rest] by blast
  have "[n @ ''.WAV''. Inr (Some n) \<leftarrow> phrase (hour i) (minute i)] = map (\<lambda>n. n @ ''.WAV'') ns"
    by (simp only: ns names_of_phrase)
  then have "opened w' = opened w
                 @ concat (map (\<lambda>i. [n @ ''.WAV''. Inr (Some n) \<leftarrow> phrase (hour i) (minute i)]) (i # polls))"
    by (simp only: o' o1 list.map concat.simps append_assoc)
  moreover have "loops (i # polls) w = Inr w'" using w1 w' by simp
  ultimately show ?case using ok' d' d1 by (intro exI [of _ w']) simp
qed

lemmas table_defs = annc_def hours_def mTens_def mTeens_def mTenX_def mins_def ampm_def

lemma phrase_13_05:
  "phrase 13 5 = map (\<lambda>n. Inr (Some n)) [''annc'', ''h01'', ''m0x'', ''m5'', ''pm'']"
  by (simp add: phrase_def minute_phrase_def pgm_read_word_def table_defs)

lemma names_determined:
  "map (\<lambda>n. Inr (Some n)) ns = map (\<lambda>n. Inr (Some n)) ms \<Longrightarrow> ns = ms"
  by (induction ns arbitrary: ms) auto

subsection \<open>Clips that fail\<close>

text \<open>
  C7. When the button is pressed and the deadline has passed, \<^verbatim>\<open>loop\<close> passes the name of
  every clip of the phrase to \<^verbatim>\<open>file.open\<close>, in order, whatever the card holds: a clip that
  cannot be opened or is not a valid WAV file is not played, its failure is printed, and the
  clips after it are still attempted. A single call of \<^verbatim>\<open>playfile\<close> for a clip that fails
  prints the message, plays nothing and leaves the mouth LED as it was.
\<close>

theorem failed_clip_is_skipped:
  assumes "filename_ok (filename w)" and "hour i < 24" and "minute i < 60"
    and "trigger_low i" and "0 \<le>s millis i - debounceTime w"
  shows "(\<exists>ns w'. phrase (hour i) (minute i) = map (\<lambda>n. Inr (Some n)) ns
            \<and> loop i w = Inr w'
            \<and> opened w' = opened w @ map (\<lambda>n. n @ ''.WAV'') ns
            \<and> played w' = played w
                 @ concat (map (\<lambda>n. case sdcard i (n @ ''.WAV'') of
                                       Wav ss \<Rightarrow> [n @ ''.WAV''] | _ \<Rightarrow> []) ns)
            \<and> serial w' = serial w
                 @ concat (map (\<lambda>n. case sdcard i (n @ ''.WAV'') of
                                       NotFound \<Rightarrow> ''Couldn't open file: '' @ n @ ''.WAV''
                                     | NotWav \<Rightarrow> (n @ ''.WAV'') @ println '': Not a valid WAV''
                                     | Wav ss \<Rightarrow> []) ns))
       \<and> (\<forall>n \<in> set clip_ids. \<exists>w1.
              playfile (sdcard i) (Some n) w = Inr w1
            \<and> opened w1 = opened w @ [n @ ''.WAV'']
            \<and> (sdcard i (n @ ''.WAV'') = NotFound \<longrightarrow>
                  played w1 = played w \<and> mouth w1 = mouth w
                \<and> serial w1 = serial w @ ''Couldn't open file: '' @ n @ ''.WAV'')
            \<and> (sdcard i (n @ ''.WAV'') = NotWav \<longrightarrow>
                  played w1 = played w \<and> mouth w1 = mouth w
                \<and> serial w1 = serial w @ (n @ ''.WAV'') @ println '': Not a valid WAV''))"
proof (intro conjI ballI)
  show "\<exists>ns w'. phrase (hour i) (minute i) = map (\<lambda>n. Inr (Some n)) ns
            \<and> loop i w = Inr w'
            \<and> opened w' = opened w @ map (\<lambda>n. n @ ''.WAV'') ns
            \<and> played w' = played w
                 @ concat (map (\<lambda>n. case sdcard i (n @ ''.WAV'') of
                                       Wav ss \<Rightarrow> [n @ ''.WAV''] | _ \<Rightarrow> []) ns)
            \<and> serial w' = serial w
                 @ concat (map (\<lambda>n. case sdcard i (n @ ''.WAV'') of
                                       NotFound \<Rightarrow> ''Couldn't open file: '' @ n @ ''.WAV''
                                     | NotWav \<Rightarrow> (n @ ''.WAV'') @ println '': Not a valid WAV''
                                     | Wav ss \<Rightarrow> []) ns)"
    using loop_activation [OF assms] by blast
next
  fix n assume "n \<in> set clip_ids"
  then have n: "length n \<le> 8" "NUL \<notin> set n" using clip_ids_ok by blast+
  obtain w1 where "playfile (sdcard i) (Some n) w = Inr w1"
    and "opened w1 = opened w @ [n @ ''.WAV'']"
    and "played w1 = played w
           @ (case sdcard i (n @ ''.WAV'') of Wav ss \<Rightarrow> [n @ ''.WAV''] | _ \<Rightarrow> [])"
    and "serial w1 = serial w
                 @ (case sdcard i (n @ ''.WAV'') of
                      NotFound \<Rightarrow> ''Couldn't open file: '' @ n @ ''.WAV''
                    | NotWav \<Rightarrow> (n @ ''.WAV'') @ println '': Not a valid WAV''
                    | Wav ss \<Rightarrow> [])"
    and "mouth w1 = (case sdcard i (n @ ''.WAV'') of
                            Wav ss \<Rightarrow> (if writes (sample_loop ss) = [] then mouth w
                                        else AnalogOut (last (writes (sample_loop ss))))
                          | _ \<Rightarrow> mouth w)"
    using playfile_fields [OF assms(1) n, of "sdcard i"] by blast
  then show "\<exists>w1. playfile (sdcard i) (Some n) w = Inr w1
            \<and> opened w1 = opened w @ [n @ ''.WAV'']
            \<and> (sdcard i (n @ ''.WAV'') = NotFound \<longrightarrow>
                  played w1 = played w \<and> mouth w1 = mouth w
                \<and> serial w1 = serial w @ ''Couldn't open file: '' @ n @ ''.WAV'')
            \<and> (sdcard i (n @ ''.WAV'') = NotWav \<longrightarrow>
                  played w1 = played w \<and> mouth w1 = mouth w
                \<and> serial w1 = serial w @ (n @ ''.WAV'') @ println '': Not a valid WAV'')"
    by (intro exI [of _ w1]) simp
qed

theorem failed_clip_is_skipped_witness:
  "filename_ok (filename world_init) \<and> (13 :: 8 word) < 24 \<and> (5 :: 8 word) < 60
   \<and> 0 \<le>s (20 :: 32 word) - debounceTime world_init
   \<and> (\<exists>w'. loop \<lparr>trigger_low = True, millis = 20, hour = 13, minute = 5,
                   sdcard = sdcard_of [(''annc.WAV'', Wav []), (''m0x.WAV'', NotWav)]\<rparr>
                 world_init = Inr w'
          \<and> opened w' = [''annc.WAV'', ''h01.WAV'', ''m0x.WAV'', ''m5.WAV'', ''pm.WAV'']
          \<and> played w' = [''annc.WAV''])"
proof -
  let ?i = "\<lparr>trigger_low = True, millis = 20, hour = 13, minute = 5,
             sdcard = sdcard_of [(''annc.WAV'', Wav []), (''m0x.WAV'', NotWav)]\<rparr>"
  have h: "hour ?i < 24" "minute ?i < 60" "trigger_low ?i"
    "0 \<le>s millis ?i - debounceTime world_init"
    by (simp_all add: world_init_def word_sle_eq)
  obtain ns w' where ns: "phrase (hour ?i) (minute ?i) = map (\<lambda>n. Inr (Some n)) ns"
    and l: "loop ?i world_init = Inr w'"
    and o: "opened w' = opened world_init @ map (\<lambda>n. n @ ''.WAV'') ns"
    and p: "played w' = played world_init
                 @ concat (map (\<lambda>n. case sdcard ?i (n @ ''.WAV'') of
                                       Wav ss \<Rightarrow> [n @ ''.WAV''] | _ \<Rightarrow> []) ns)"
    using failed_clip_is_skipped [OF filename_ok_init h, THEN conjunct1] by blast
  have A: "phrase 13 5 = map (\<lambda>n. Inr (Some n)) ns" using ns by simp
  have e: "ns = [''annc'', ''h01'', ''m0x'', ''m5'', ''pm'']"
    by (rule names_determined) (rule trans [OF A [symmetric] phrase_13_05])
  have "opened w' = [''annc.WAV'', ''h01.WAV'', ''m0x.WAV'', ''m5.WAV'', ''pm.WAV'']"
    using o by (simp add: e world_init_def)
  moreover have "played w' = [''annc.WAV'']"
    using p by (simp add: e world_init_def sdcard_of_def)
  ultimately show ?thesis using l h filename_ok_init by simp
qed

subsection \<open>The mouth LED after playing\<close>

text \<open>
  C5 (as amended). The mouth LED is made an input (high impedance) by \<^verbatim>\<open>loop\<close>, after the
  last clip of the phrase, on every path through the phrase. A single call of \<^verbatim>\<open>playfile\<close>
  does not do it: when the file cannot be opened or is not a valid WAV file, or when the
  sample loop does not run at all, the call leaves the pin as it was, and otherwise it
  leaves it an output at the last brightness written.
\<close>

theorem mouth_released_after_phrase:
  assumes "filename_ok (filename w)" and "hour i < 24" and "minute i < 60"
    and "trigger_low i" and "0 \<le>s millis i - debounceTime w"
  shows "(\<exists>w'. loop i w = Inr w' \<and> mouth w' = Input)
       \<and> (\<forall>n \<in> set clip_ids. \<exists>w1.
              playfile (sdcard i) (Some n) w = Inr w1
            \<and> mouth w1 = (case sdcard i (n @ ''.WAV'') of
                            Wav ss \<Rightarrow> (if ss = [] then mouth w
                                        else AnalogOut (last (writes (sample_loop ss))))
                          | _ \<Rightarrow> mouth w))"
proof (intro conjI ballI)
  show "\<exists>w'. loop i w = Inr w' \<and> mouth w' = Input"
    using loop_activation [OF assms] by blast
next
  fix n assume "n \<in> set clip_ids"
  then have n: "length n \<le> 8" "NUL \<notin> set n" using clip_ids_ok by blast+
  obtain w1 where "playfile (sdcard i) (Some n) w = Inr w1"
    and "mouth w1 = (case sdcard i (n @ ''.WAV'') of
                            Wav ss \<Rightarrow> (if writes (sample_loop ss) = [] then mouth w
                                        else AnalogOut (last (writes (sample_loop ss))))
                          | _ \<Rightarrow> mouth w)"
    using playfile_fields [OF assms(1) n, of "sdcard i"] by blast
  then show "\<exists>w1. playfile (sdcard i) (Some n) w = Inr w1
            \<and> mouth w1 = (case sdcard i (n @ ''.WAV'') of
                            Wav ss \<Rightarrow> (if ss = [] then mouth w
                                        else AnalogOut (last (writes (sample_loop ss))))
                          | _ \<Rightarrow> mouth w)"
    by (intro exI [of _ w1]) (simp only: writes_empty_iff simp_thms)
qed

theorem mouth_released_after_phrase_witness:
  "filename_ok (filename world_init) \<and> (13 :: 8 word) < 24 \<and> (5 :: 8 word) < 60
   \<and> 0 \<le>s (20 :: 32 word) - debounceTime world_init
   \<and> annc \<in> set clip_ids
   \<and> (\<exists>w'. loop \<lparr>trigger_low = True, millis = 20, hour = 13, minute = 5,
                   sdcard = sdcard_of [(''annc.WAV'', Wav (10 # replicate 255 (- 10) @ [0]))]\<rparr>
                 world_init = Inr w'
          \<and> mouth w' = Input)
   \<and> (\<exists>w1. playfile (sdcard_of [(''annc.WAV'', Wav (10 # replicate 255 (- 10) @ [0]))])
               (Some annc) world_init = Inr w1
          \<and> mouth w1 = AnalogOut 80)"
proof -
  let ?sd = "sdcard_of [(''annc.WAV'', Wav (10 # replicate 255 (- 10) @ [0]))]"
  let ?i = "\<lparr>trigger_low = True, millis = 20, hour = 13, minute = 5, sdcard = ?sd\<rparr>"
  have h: "hour ?i < 24" "minute ?i < 60" "trigger_low ?i"
    "0 \<le>s millis ?i - debounceTime world_init"
    by (simp_all add: world_init_def word_sle_eq)
  have a: "annc \<in> set clip_ids" by (simp add: clip_ids_def)
  note t = mouth_released_after_phrase [OF filename_ok_init h]
  have l: "\<exists>w'. loop ?i world_init = Inr w' \<and> mouth w' = Input"
    using t by (rule conjunct1)
  obtain w1 where w1: "playfile (sdcard ?i) (Some annc) world_init = Inr w1"
    and m: "mouth w1 = (case sdcard ?i (annc @ ''.WAV'') of
                            Wav ss \<Rightarrow> (if ss = [] then mouth world_init
                                        else AnalogOut (last (writes (sample_loop ss))))
                          | _ \<Rightarrow> mouth world_init)"
    using t [THEN conjunct2] a by blast
  have "mouth w1 = AnalogOut 80"
    using m by (simp add: sdcard_of_def annc_def loud_window)
  then show ?thesis using l w1 a h filename_ok_init by simp
qed

text \<open>
  C5 as stated fails for the call \<^verbatim>\<open>playfile(boot)\<close> of \<^verbatim>\<open>setup\<close>: after a file of 257 samples
  whose first 256 span the range from -10 to 10, the mouth LED is an output at brightness
  80 when the call returns.
\<close>

theorem mouth_after_one_clip_counterexample:
  "playfile (sdcard_of [(''boot.WAV'', Wav (10 # replicate 255 (- 10) @ [0]))])
     (Some boot) world_init
   = Inr \<lparr>filename = ''XXXXboot.WAV'' @ [NUL], debounceTime = 0, mouth = AnalogOut 80,
          serial = [], opened = [''boot.WAV''], played = [''boot.WAV'']\<rparr>"
  by (simp add: playfile_eval world_init_def filename_init_def boot_def loud_window)

subsection \<open>The button held down\<close>

text \<open>
  C2 (as amended). For every sequence of polls in which the button is pressed and the
  signed difference between the time and the deadline is not negative, every poll starts
  a phrase: the names of all its clips are passed to \<^verbatim>\<open>file.open\<close>, and the deadline stays as
  it was, so the next poll of the held button starts the phrase again. A poll with the
  button pressed before the deadline does nothing, and a poll with the button released sets
  the deadline to 15 ms after the time.
\<close>

theorem held_button_retriggers:
  assumes "filename_ok (filename w)"
    and "\<forall>i \<in> set polls. hour i < 24 \<and> minute i < 60"
  shows "((\<forall>i \<in> set polls. trigger_low i \<and> 0 \<le>s millis i - debounceTime w) \<longrightarrow>
            (\<exists>w'. loops polls w = Inr w'
               \<and> debounceTime w' = debounceTime w
               \<and> opened w' = opened w
                    @ concat (map (\<lambda>i. [n @ ''.WAV''. Inr (Some n) \<leftarrow> phrase (hour i) (minute i)])
                                  polls)))
       \<and> (trigger_low j \<and> \<not> 0 \<le>s millis j - debounceTime w \<longrightarrow> loop j w = Inr w)
       \<and> (\<not> trigger_low j \<longrightarrow> loop j w = Inr (w\<lparr>debounceTime := millis j + 15\<rparr>))"
proof (intro conjI impI)
  assume "\<forall>i \<in> set polls. trigger_low i \<and> 0 \<le>s millis i - debounceTime w"
  then have "\<forall>i \<in> set polls. hour i < 24 \<and> minute i < 60 \<and> trigger_low i
                          \<and> 0 \<le>s millis i - debounceTime w"
    using assms(2) by blast
  then show "\<exists>w'. loops polls w = Inr w'
               \<and> debounceTime w' = debounceTime w
               \<and> opened w' = opened w
                    @ concat (map (\<lambda>i. [n @ ''.WAV''. Inr (Some n) \<leftarrow> phrase (hour i) (minute i)])
                                  polls)"
    using loops_held [OF assms(1)] by blast
next
  assume "trigger_low j \<and> \<not> 0 \<le>s millis j - debounceTime w"
  then show "loop j w = Inr w" by (simp add: loop_def)
next
  assume "\<not> trigger_low j"
  then show "loop j w = Inr (w\<lparr>debounceTime := millis j + 15\<rparr>)" by (simp add: loop_def)
qed

theorem held_button_retriggers_witness:
  "filename_ok (filename world_init)
   \<and> ((13 :: 8 word) < 24 \<and> (5 :: 8 word) < 60)
   \<and> (0 \<le>s (15 :: 32 word) - debounceTime world_init \<and> 0 \<le>s (16 :: 32 word) - debounceTime world_init)
   \<and> (\<exists>w'. loops [\<lparr>trigger_low = True, millis = 15, hour = 13, minute = 5, sdcard = sdcard_of []\<rparr>,
                    \<lparr>trigger_low = True, millis = 16, hour = 13, minute = 5, sdcard = sdcard_of []\<rparr>]
                 world_init = Inr w'
          \<and> debounceTime w' = 0
          \<and> opened w' = [''annc.WAV'', ''h01.WAV'', ''m0x.WAV'', ''m5.WAV'', ''pm.WAV'',
                          ''annc.WAV'', ''h01.WAV'', ''m0x.WAV'', ''m5.WAV'', ''pm.WAV''])
   \<and> loop \<lparr>trigger_low = False, millis = 100, hour = 13, minute = 5, sdcard = sdcard_of []\<rparr>
        world_init = Inr (world_init\<lparr>debounceTime := 115\<rparr>)"
proof -
  let ?a = "\<lparr>trigger_low = True, millis = 15, hour = 13, minute = 5, sdcard = sdcard_of []\<rparr>"
  let ?b = "\<lparr>trigger_low = True, millis = 16, hour = 13, minute = 5, sdcard = sdcard_of []\<rparr>"
  let ?j = "\<lparr>trigger_low = False, millis = 100, hour = 13, minute = 5, sdcard = sdcard_of []\<rparr>"
  have t: "\<forall>i \<in> set [?a, ?b]. hour i < 24 \<and> minute i < 60" by simp
  have d: "0 \<le>s (15 :: 32 word) - debounceTime world_init"
    "0 \<le>s (16 :: 32 word) - debounceTime world_init"
    by (simp_all add: world_init_def word_sle_eq)
  then have p: "\<forall>i \<in> set [?a, ?b]. trigger_low i \<and> 0 \<le>s millis i - debounceTime world_init"
    by simp
  note hb = held_button_retriggers [OF filename_ok_init t, of ?j]
  obtain w' where l: "loops [?a, ?b] world_init = Inr w'"
    and dt: "debounceTime w' = debounceTime world_init"
    and o: "opened w' = opened world_init
                    @ concat (map (\<lambda>i. [n @ ''.WAV''. Inr (Some n) \<leftarrow> phrase (hour i) (minute i)])
                                  [?a, ?b])"
    using hb [THEN conjunct1, THEN mp, OF p] by blast
  have "opened w' = [''annc.WAV'', ''h01.WAV'', ''m0x.WAV'', ''m5.WAV'', ''pm.WAV'',
                     ''annc.WAV'', ''h01.WAV'', ''m0x.WAV'', ''m5.WAV'', ''pm.WAV'']"
    using o by (simp add: phrase_13_05 world_init_def)
  moreover have "debounceTime w' = 0" using dt by (simp add: world_init_def)
  moreover have "loop ?j world_init = Inr (world_init\<lparr>debounceTime := 115\<rparr>)"
    using hb [THEN conjunct2, THEN conjunct2] by simp
  ultimately show ?thesis using l d filename_ok_init by simp
qed

text \<open>
  C2 as stated (exactly one phrase for a press that is held) fails. On a card with the
  boot clip and the five clips of 13:05, the button is released at 0 ms, pressed at 15 ms
  and still held at the next poll, at 3000 ms: the phrase is played at both of these polls.
\<close>

theorem held_button_counterexample:
  "map_sum id played
     (sketch (sdcard_of [(''boot.WAV'', Wav [0]), (''annc.WAV'', Wav [0]), (''h01.WAV'', Wav [0]),
                         (''m0x.WAV'', Wav [0]), (''m5.WAV'', Wav [0]), (''pm.WAV'', Wav [0])])
        [\<lparr>trigger_low = False, millis = 0, hour = 13, minute = 5,
          sdcard = sdcard_of [(''annc.WAV'', Wav [0]), (''h01.WAV'', Wav [0]),
                              (''m0x.WAV'', Wav [0]), (''m5.WAV'', Wav [0]), (''pm.WAV'', Wav [0])]\<rparr>,
         \<lparr>trigger_low = True, millis = 15, hour = 13, minute = 5,
          sdcard = sdcard_of [(''annc.WAV'', Wav [0]), (''h01.WAV'', Wav [0]),
                              (''m0x.WAV'', Wav [0]), (''m5.WAV'', Wav [0]), (''pm.WAV'', Wav [0])]\<rparr>,
         \<lparr>trigger_low = True, millis = 3000, hour = 13, minute = 5,
          sdcard = sdcard_of [(''annc.WAV'', Wav [0]), (''h01.WAV'', Wav [0]),
                              (''m0x.WAV'', Wav [0]), (''m5.WAV'', Wav [0]), (''pm.WAV'', Wav [0])]\<rparr>])
   = Inr [''boot.WAV'',
          ''annc.WAV'', ''h01.WAV'', ''m0x.WAV'', ''m5.WAV'', ''pm.WAV'',
          ''annc.WAV'', ''h01.WAV'', ''m0x.WAV'', ''m5.WAV'', ''pm.WAV'']"
  by (simp add: sketch_def setup_sketch_def loop_def phrase_13_05 playfile_eval world_init_def
      filename_init_def boot_def sample_loop_def amp_init_def sample_iter_def word_sle_eq)

end
